theory Spec2Isabelle
  imports Main "HOL-Library.Char_ord" "HOL-Library.List_Lexorder"
begin

section \<open>Mega.nz file manager: the model of \<open>mega_file_manager.py\<close>\<close>

text \<open>
  The program is one class, \<open>MegaFileManager\<close>. Its core is a walk over the flat node
  listing of the account (\<open>get_all_files_recursive\<close>), a lookup of a folder by name
  (\<open>find_folder\<close>), a classification of the collected files (\<open>analyze_folder\<close>) and two
  bulk mutations (\<open>delete_pdfs\<close>, \<open>rename_files\<close>) with a dry-run mode.

  Strings are \<open>string\<close>, compared as Python compares \<open>str\<close>: lexicographically, character
  by character (the order of \<open>HOL-Library.List_Lexorder\<close> over \<open>HOL-Library.Char_ord\<close>).
  Console colours, banners, the progress bar and the log lines carry no data and are left
  out; every remote call, every prompt and every file write is kept.
\<close>

subsection \<open>String operations of the Python library\<close>

text \<open>\<open>str.lower()\<close> on the letters A to Z; every other character is left as it is.\<close>

definition lower_char :: "char \<Rightarrow> char" where
  "lower_char c =
     (case map_of (zip ''ABCDEFGHIJKLMNOPQRSTUVWXYZ'' ''abcdefghijklmnopqrstuvwxyz'') c of
        None \<Rightarrow> c
      | Some l \<Rightarrow> l)"

definition lower :: "string \<Rightarrow> string" where
  "lower s = map lower_char s"

text \<open>\<open>s.endswith(suf)\<close>.\<close>

definition endswith :: "string \<Rightarrow> string \<Rightarrow> bool" where
  "endswith s suf = (length suf \<le> length s \<and> drop (length s - length suf) s = suf)"

text \<open>\<open>sub in s\<close> on strings: \<open>sub\<close> occurs in \<open>s\<close> as a contiguous block.\<close>

fun startswith :: "string \<Rightarrow> string \<Rightarrow> bool" where
  "startswith s [] = True"
| "startswith [] (c # cs) = False"
| "startswith (x # xs) (c # cs) = (x = c \<and> startswith xs cs)"

fun contains :: "string \<Rightarrow> string \<Rightarrow> bool" where
  "contains [] sub = (sub = [])"
| "contains (x # xs) sub = (startswith (x # xs) sub \<or> contains xs sub)"

text \<open>\<open>s.rfind(c)\<close>: the index of the last occurrence of \<open>c\<close>, or \<open>-1\<close>.\<close>

fun rfind :: "string \<Rightarrow> char \<Rightarrow> int" where
  "rfind [] c = - 1"
| "rfind (x # xs) c =
     (let r = rfind xs c in if 0 \<le> r then r + 1 else if x = c then 0 else - 1)"

text \<open>\<open>s.split(sep)\<close> for a one-character separator.\<close>

fun split :: "string \<Rightarrow> char \<Rightarrow> string list" where
  "split [] sep = [[]]"
| "split (x # xs) sep =
     (if x = sep then [] # split xs sep
      else (case split xs sep of [] \<Rightarrow> [[x]] | w # ws \<Rightarrow> (x # w) # ws))"

text \<open>
  \<open>Path(s).name\<close> of \<open>pathlib\<close> on a POSIX host: the path is cut at \<open>/\<close>, empty
  components and \<open>.\<close> components are dropped, and the name is the last component left
  (the empty string when there is none).
\<close>

definition path_name :: "string \<Rightarrow> string" where
  "path_name s =
     (case rev (filter (\<lambda>x. x \<noteq> [] \<and> x \<noteq> ''.'') (split s CHR ''/'')) of
        [] \<Rightarrow> []
      | x # _ \<Rightarrow> x)"

text \<open>
  \<open>Path(s).suffix\<close> (Python up to 3.13):
  \<^verbatim>\<open>
  name = self.name
  i = name.rfind('.')
  if 0 < i < len(name) - 1: return name[i:]
  else: return ''
  \<close>
\<close>

definition path_suffix :: "string \<Rightarrow> string" where
  "path_suffix s =
     (let name = path_name s; i = rfind name CHR ''.''
      in if 0 < i \<and> i < int (length name) - 1 then drop (nat i) name else [])"

text \<open>\<open>str(n)\<close> for \<open>n \<ge> 0\<close> and the format \<open>{n:03d}\<close>: decimal, padded with zeros to width 3.\<close>

definition digit_char :: "nat \<Rightarrow> char" where
  "digit_char d = ''0123456789'' ! d"

fun str_nat :: "nat \<Rightarrow> string" where
  "str_nat n = (if n < 10 then [digit_char n] else str_nat (n div 10) @ [digit_char (n mod 10)])"

declare str_nat.simps [simp del]

definition format_03d :: "nat \<Rightarrow> string" where
  "format_03d n = replicate (3 - length (str_nat n)) CHR ''0'' @ str_nat n"

subsection \<open>Nodes, file records and the environment\<close>

text \<open>
  A node of the listing is a Python dict with the keys \<open>p\<close> (parent id), \<open>t\<close> (type: 0 a
  file, 1 a folder, anything else a special node) and \<open>a\<close> (attributes). The source tests
  three things about \<open>a\<close>: whether the key is there (\<open>'a' in file_data\<close>), whether its value
  is truthy (\<open>file_data['a'] and ...\<close>) and whether it holds a name (\<open>'n' in file_data['a']\<close>).
  So \<open>node_a\<close> is \<open>None\<close> when the key is absent, \<open>Some NoAttrs\<close> when the value is
  \<open>False\<close> (what the backend stores for attributes it could not decrypt), \<open>Some (Raw s)\<close>
  when it is a text \<open>s\<close> (attributes left undecoded), and \<open>Some (Attrs n)\<close> when it is a
  dict, \<open>n\<close> being the entry \<open>'n'\<close> if it has one. On a text, \<open>'n' in file_data['a']\<close> asks
  whether the letter occurs in it, and \<open>file_data['a']['n']\<close> raises \<open>TypeError\<close>.
\<close>

datatype attrs = NoAttrs | Raw string | Attrs "string option"

record node =
  node_p :: string
  node_t :: int
  node_a :: "attrs option"

text \<open>The listing is a dict in insertion order: an association list, iterated as \<open>items()\<close>.\<close>

type_synonym listing = "(string \<times> node) list"

text \<open>The dict built for a collected file: \<open>{'id': ..., 'name': ..., 'data': ...}\<close>.\<close>

record file_info =
  info_id :: string
  info_name :: string
  info_data :: node

text \<open>An entry of \<open>backup_data['files']\<close> and the backup itself.\<close>

record backup_entry =
  file_id :: string
  original_name :: string
  new_name :: string

record backup_data =
  timestamp :: string
  custom_name :: string
  files :: "backup_entry list"

datatype error = KeyError | TypeError

text \<open>
  What lies outside the program is a parameter: the remote account, the clock, the
  console and the local file system form an environment of type \<open>'e\<close>, and every primitive
  takes it and returns it changed. A primitive that can raise returns \<open>False\<close> with the
  environment it left behind.
\<close>

record 'e prims =
  get_files :: "'e \<Rightarrow> listing"
  destroy :: "string \<Rightarrow> 'e \<Rightarrow> bool \<times> 'e"
  rename :: "string \<Rightarrow> string \<Rightarrow> 'e \<Rightarrow> bool \<times> 'e"
  write_backup :: "string \<Rightarrow> backup_data \<Rightarrow> 'e \<Rightarrow> bool \<times> 'e"
  now_isoformat :: "'e \<Rightarrow> string"
  now_strftime :: "'e \<Rightarrow> string"
  input :: "string \<Rightarrow> 'e \<Rightarrow> string \<times> 'e"

text \<open>The calls a run has issued, in order, each with whether it returned normally.\<close>

datatype call =
  Destroy string
| Rename string string
| WriteBackup string backup_data
| Input string

record 'e world =
  env :: 'e
  trace :: "(call \<times> bool) list"

subsection \<open>\<open>delete_pdfs\<close>\<close>

text \<open>The filters of lines 258 and 286.\<close>

definition is_pdf :: "file_info \<Rightarrow> bool" where
  "is_pdf f = endswith (lower (info_name f)) ''.pdf''"

text \<open>
  The loop of lines 268 to 278. In live mode the remote \<open>destroy\<close> is called; when it raises,
  the handler reports the error and the loop goes on without counting the file.
\<close>

fun delete_loop :: "'e prims \<Rightarrow> bool \<Rightarrow> file_info list \<Rightarrow> nat \<Rightarrow> 'e world \<Rightarrow> nat \<times> 'e world" where
  "delete_loop M dry_run [] deleted_count w = (deleted_count, w)"
| "delete_loop M dry_run (pdf_file # rest) deleted_count w =
     (if \<not> dry_run then
        (let (ok, e) = destroy M (info_id pdf_file) (env w);
             w' = w\<lparr>env := e, trace := trace w @ [(Destroy (info_id pdf_file), ok)]\<rparr>
         in if ok then delete_loop M dry_run rest (deleted_count + 1) w'
            else delete_loop M dry_run rest deleted_count w')
      else delete_loop M dry_run rest (deleted_count + 1) w)"

text \<open>The body of \<open>delete_pdfs\<close> from line 258 on, given the collected files.\<close>

definition delete_pdfs_from :: "'e prims \<Rightarrow> bool \<Rightarrow> file_info list \<Rightarrow> 'e world \<Rightarrow> nat \<times> 'e world" where
  "delete_pdfs_from M dry_run all_files w =
     (let pdf_files = filter is_pdf all_files
      in if pdf_files = [] then (0, w)
         else delete_loop M dry_run pdf_files 0 w)"

subsection \<open>\<open>rename_files\<close>\<close>

text \<open>
  The loop of lines 306 to 328, \<open>idx\<close> counting from 1. The backup entry is appended before
  the remote call, so it is there whether the call succeeds or not.
\<close>

fun rename_loop ::
  "'e prims \<Rightarrow> string \<Rightarrow> bool \<Rightarrow> nat \<Rightarrow> file_info list \<Rightarrow> backup_entry list \<Rightarrow> nat \<Rightarrow> 'e world
     \<Rightarrow> backup_entry list \<times> nat \<times> 'e world" where
  "rename_loop M cname dry_run idx [] entries renamed_count w = (entries, renamed_count, w)"
| "rename_loop M cname dry_run idx (file_info # rest) entries renamed_count w =
     (let original = info_name file_info;
          extension = path_suffix original;
          new = cname @ ''_'' @ format_03d idx @ extension;
          entries' = entries @ [\<lparr>file_id = info_id file_info, original_name = original, new_name = new\<rparr>]
      in if \<not> dry_run then
           (let (ok, e) = rename M (info_id file_info) new (env w);
                w' = w\<lparr>env := e, trace := trace w @ [(Rename (info_id file_info) new, ok)]\<rparr>
            in if ok then rename_loop M cname dry_run (idx + 1) rest entries' (renamed_count + 1) w'
               else rename_loop M cname dry_run (idx + 1) rest entries' renamed_count w')
         else rename_loop M cname dry_run (idx + 1) rest entries' (renamed_count + 1) w)"

text \<open>The files the renamer works on, in its order (lines 286 and 293).\<close>

definition files_to_rename :: "file_info list \<Rightarrow> file_info list" where
  "files_to_rename all_files = sort_key info_name (filter (\<lambda>f. \<not> is_pdf f) all_files)"

text \<open>
  The body of \<open>rename_files\<close> from line 286 on. Besides the count it returns the backup
  built by the loop, which the source holds in the local \<open>backup_data\<close>. The backup is
  written after a live pass that renamed at least one file; a failing write is reported
  and changes nothing else.
\<close>

definition rename_files_from ::
  "'e prims \<Rightarrow> string \<Rightarrow> bool \<Rightarrow> file_info list \<Rightarrow> 'e world \<Rightarrow> nat \<times> backup_data option \<times> 'e world" where
  "rename_files_from M cname dry_run all_files w =
     (if filter (\<lambda>f. \<not> is_pdf f) all_files = [] then (0, None, w)
      else
        (let stamp = now_isoformat M (env w);
             (entries, renamed_count, w') =
                rename_loop M cname dry_run 1 (files_to_rename all_files) [] 0 w;
             backup = \<lparr>timestamp = stamp, custom_name = cname, files = entries\<rparr>
         in if \<not> dry_run \<and> 0 < renamed_count then
              (let backup_file = ''backup_'' @ now_strftime M (env w') @ ''.json'';
                   (ok, e) = write_backup M backup_file backup (env w')
               in (renamed_count, Some backup,
                   w'\<lparr>env := e, trace := trace w' @ [(WriteBackup backup_file backup, ok)]\<rparr>))
            else (renamed_count, Some backup, w')))"

text \<open>The backup entries of a pass: \<open>backup_data['files']\<close> when the loop has run.\<close>

definition rename_plan :: "'e prims \<Rightarrow> string \<Rightarrow> bool \<Rightarrow> file_info list \<Rightarrow> 'e world \<Rightarrow> backup_entry list" where
  "rename_plan M cname dry_run all_files w =
     (case fst (snd (rename_files_from M cname dry_run all_files w)) of
        None \<Rightarrow> []
      | Some backup \<Rightarrow> files backup)"

subsection \<open>\<open>get_all_files_recursive\<close>\<close>

text \<open>
  The name recorded for a file (line 208):
  \<^verbatim>\<open>file_data['a']['n'] if 'a' in file_data and 'n' in file_data['a'] else 'unknown'\<close>.
  When the key is there and its value is \<open>False\<close>, \<open>'n' in file_data['a']\<close> raises
  \<open>TypeError\<close>; when it is a text with the letter \<open>n\<close>, \<open>file_data['a']['n']\<close> does.
\<close>

definition file_name :: "node \<Rightarrow> error + string" where
  "file_name file_data =
     (case node_a file_data of
        None \<Rightarrow> Inr ''unknown''
      | Some NoAttrs \<Rightarrow> Inl TypeError
      | Some (Raw s) \<Rightarrow> if CHR ''n'' \<in> set s then Inl TypeError else Inr ''unknown''
      | Some (Attrs None) \<Rightarrow> Inr ''unknown''
      | Some (Attrs (Some n)) \<Rightarrow> Inr n)"

text \<open>
  The nested function \<open>traverse\<close> (lines 202 to 212) is a loop over the whole listing that
  calls itself for every folder found under \<open>parent_id\<close>. The fourth argument is what is
  left of the listing in the running loop, the last one the list \<open>all_files\<close> that the
  source appends to. Nothing bounds the recursion in the source, so the model takes the
  number of nested calls available as \<open>depth\<close>: \<open>None\<close> means that the walk needed more,
  \<open>Some (Inl err)\<close> that it raised, \<open>Some (Inr fs)\<close> that it returned with \<open>all_files = fs\<close>.
\<close>

fun traverse ::
  "nat \<Rightarrow> listing \<Rightarrow> string \<Rightarrow> listing \<Rightarrow> file_info list \<Rightarrow> (error + file_info list) option" where
  "traverse depth listing parent_id [] all_files = Some (Inr all_files)"
| "traverse depth listing parent_id ((fid, file_data) # rest) all_files =
     (if node_p file_data = parent_id then
        (if node_t file_data = 0 then
           (case file_name file_data of
              Inl err \<Rightarrow> Some (Inl err)
            | Inr name \<Rightarrow>
                traverse depth listing parent_id rest
                  (all_files @ [\<lparr>info_id = fid, info_name = name, info_data = file_data\<rparr>]))
         else if node_t file_data = 1 then
           (case depth of
              0 \<Rightarrow> None
            | Suc d \<Rightarrow>
                (case traverse d listing fid listing all_files of
                   Some (Inr all_files') \<Rightarrow> traverse depth listing parent_id rest all_files'
                 | r \<Rightarrow> r))
         else traverse depth listing parent_id rest all_files)
      else traverse depth listing parent_id rest all_files)"

definition get_all_files_recursive :: "nat \<Rightarrow> listing \<Rightarrow> string \<Rightarrow> (error + file_info list) option" where
  "get_all_files_recursive depth listing folder_id = traverse depth listing folder_id listing []"

subsection \<open>\<open>analyze_folder\<close>\<close>

record stats =
  st_total_files :: nat
  st_pdf_files :: nat
  st_other_files :: nat
  st_file_types :: "string \<rightharpoonup> nat"

text \<open>The loop of lines 230 to 239.\<close>

fun analyze_loop :: "file_info list \<Rightarrow> stats \<Rightarrow> stats" where
  "analyze_loop [] st = st"
| "analyze_loop (file_info # rest) st =
     (let name = info_name file_info;
          ext = lower (path_suffix name);
          st1 = (if ext = ''.pdf'' then st\<lparr>st_pdf_files := st_pdf_files st + 1\<rparr>
                 else st\<lparr>st_other_files := st_other_files st + 1\<rparr>);
          st2 = st1\<lparr>st_file_types :=
                  (st_file_types st1)(ext \<mapsto> (case st_file_types st1 ext of None \<Rightarrow> 0 | Some c \<Rightarrow> c) + 1)\<rparr>
      in analyze_loop rest st2)"

definition analyze_folder_from :: "file_info list \<Rightarrow> stats" where
  "analyze_folder_from all_files =
     analyze_loop all_files
       \<lparr>st_total_files = length all_files, st_pdf_files = 0, st_other_files = 0,
        st_file_types = Map.empty\<rparr>"

subsection \<open>\<open>find_folder\<close>\<close>

text \<open>
  The first loop (lines 175 to 179). \<open>file_data['a']\<close> raises \<open>KeyError\<close> on a node without
  the key; a falsy value, a dict without \<open>'n'\<close> or a text without the letter \<open>n\<close> skips
  the node; a text with the letter passes the test of line 176 and raises \<open>TypeError\<close> at
  \<open>file_data['a']['n']\<close>.
\<close>

fun find_exact :: "listing \<Rightarrow> string \<Rightarrow> error + (string \<times> node) option" where
  "find_exact [] folder_path = Inr None"
| "find_exact ((fid, file_data) # rest) folder_path =
     (case node_a file_data of
        None \<Rightarrow> Inl KeyError
      | Some NoAttrs \<Rightarrow> find_exact rest folder_path
      | Some (Raw s) \<Rightarrow>
          if s \<noteq> [] \<and> CHR ''n'' \<in> set s then Inl TypeError
          else find_exact rest folder_path
      | Some (Attrs None) \<Rightarrow> find_exact rest folder_path
      | Some (Attrs (Some n)) \<Rightarrow>
          if n = folder_path \<and> node_t file_data = 1 then Inr (Some (fid, file_data))
          else find_exact rest folder_path)"

text \<open>
  The second loop (lines 182 to 187). The prompt shows the candidate's name, which is what
  the recorded \<open>Input\<close> call holds; the answer confirms when its lower case is \<open>y\<close>.
\<close>

fun find_substring ::
  "'e prims \<Rightarrow> listing \<Rightarrow> string \<Rightarrow> 'e world \<Rightarrow> (error + (string \<times> node) option) \<times> 'e world" where
  "find_substring M [] folder_path w = (Inr None, w)"
| "find_substring M ((fid, file_data) # rest) folder_path w =
     (case node_a file_data of
        None \<Rightarrow> (Inl KeyError, w)
      | Some NoAttrs \<Rightarrow> find_substring M rest folder_path w
      | Some (Raw s) \<Rightarrow>
          if s \<noteq> [] \<and> CHR ''n'' \<in> set s then (Inl TypeError, w)
          else find_substring M rest folder_path w
      | Some (Attrs None) \<Rightarrow> find_substring M rest folder_path w
      | Some (Attrs (Some n)) \<Rightarrow>
          if contains n folder_path \<and> node_t file_data = 1 then
            (let (confirm, e) = input M n (env w);
                 w' = w\<lparr>env := e, trace := trace w @ [(Input n, True)]\<rparr>
             in if lower confirm = ''y'' then (Inr (Some (fid, file_data)), w')
                else find_substring M rest folder_path w')
          else find_substring M rest folder_path w)"

text \<open>
  \<open>find_folder\<close>: the two loops inside one \<open>try\<close>; the handler of line 192 turns every
  exception into the result \<open>None\<close>.
\<close>

definition find_folder :: "'e prims \<Rightarrow> string \<Rightarrow> 'e world \<Rightarrow> (string \<times> node) option \<times> 'e world" where
  "find_folder M folder_path w =
     (let listing = get_files M (env w)
      in case find_exact listing folder_path of
           Inl err \<Rightarrow> (None, w)
         | Inr (Some found) \<Rightarrow> (Some found, w)
         | Inr None \<Rightarrow>
             (case find_substring M listing folder_path w of
                (Inl err, w') \<Rightarrow> (None, w')
              | (Inr r, w') \<Rightarrow> (r, w')))"

subsection \<open>The operations on a folder id\<close>

text \<open>
  \<open>delete_pdfs\<close>, \<open>rename_files\<close> and \<open>analyze_folder\<close> first collect the files (lines 257,
  284 and 221) and then run the bodies above. An exception of the walk leaves the
  function, and so does a walk that never returns.
\<close>

definition delete_pdfs :: "nat \<Rightarrow> 'e prims \<Rightarrow> string \<Rightarrow> bool \<Rightarrow> 'e world \<Rightarrow> (error + nat \<times> 'e world) option" where
  "delete_pdfs depth M folder_id dry_run w =
     (case get_all_files_recursive depth (get_files M (env w)) folder_id of
        None \<Rightarrow> None
      | Some (Inl err) \<Rightarrow> Some (Inl err)
      | Some (Inr all_files) \<Rightarrow> Some (Inr (delete_pdfs_from M dry_run all_files w)))"

definition rename_files ::
  "nat \<Rightarrow> 'e prims \<Rightarrow> string \<Rightarrow> string \<Rightarrow> bool \<Rightarrow> 'e world \<Rightarrow> (error + nat \<times> 'e world) option" where
  "rename_files depth M folder_id cname dry_run w =
     (case get_all_files_recursive depth (get_files M (env w)) folder_id of
        None \<Rightarrow> None
      | Some (Inl err) \<Rightarrow> Some (Inl err)
      | Some (Inr all_files) \<Rightarrow>
          (let (renamed_count, backup, w') = rename_files_from M cname dry_run all_files w
           in Some (Inr (renamed_count, w'))))"

definition analyze_folder :: "nat \<Rightarrow> 'e prims \<Rightarrow> string \<Rightarrow> 'e world \<Rightarrow> (error + stats) option" where
  "analyze_folder depth M folder_id w =
     (case get_all_files_recursive depth (get_files M (env w)) folder_id of
        None \<Rightarrow> None
      | Some (Inl err) \<Rightarrow> Some (Inl err)
      | Some (Inr all_files) \<Rightarrow> Some (Inr (analyze_folder_from all_files)))"

subsection \<open>Notions used to state the properties\<close>

text \<open>The calls issued between two states of a run, and how many of them raised.\<close>

definition new_calls :: "'e world \<Rightarrow> 'e world \<Rightarrow> (call \<times> bool) list" where
  "new_calls w w' = drop (length (trace w)) (trace w')"

definition failed :: "(call \<times> bool) list \<Rightarrow> nat" where
  "failed tr = length (filter (\<lambda>x. \<not> snd x) tr)"

definition is_write :: "call \<Rightarrow> bool" where
  "is_write c = (case c of WriteBackup f b \<Rightarrow> True | _ \<Rightarrow> False)"

text \<open>The entry planned for the file at position \<open>k\<close> of the renamer's order.\<close>

definition plan_entry :: "string \<Rightarrow> nat \<times> file_info \<Rightarrow> backup_entry" where
  "plan_entry cname = (\<lambda>(k, f).
     \<lparr>file_id = info_id f, original_name = info_name f,
      new_name = cname @ ''_'' @ format_03d k @ path_suffix (info_name f)\<rparr>)"

text \<open>Decimal digits and the number they spell (\<open>int(s)\<close>).\<close>

definition is_digit :: "char \<Rightarrow> bool" where
  "is_digit c = (c \<in> set ''0123456789'')"

definition digit_val :: "char \<Rightarrow> nat" where
  "digit_val c = length (takeWhile (\<lambda>d. d \<noteq> c) ''0123456789'')"

definition int_of_str :: "string \<Rightarrow> nat" where
  "int_of_str s = foldl (\<lambda>acc c. 10 * acc + digit_val c) 0 s"

text \<open>
  The parent relation of a listing, child first, and what the specification calls a node
  whose parent chain reaches a root: its parent is the root, or its parent is a node of
  the listing whose chain reaches the root.
\<close>

definition parent_rel :: "listing \<Rightarrow> (string \<times> string) set" where
  "parent_rel listing = {(i, node_p d) | i d. (i, d) \<in> set listing}"

inductive reaches :: "listing \<Rightarrow> string \<Rightarrow> string \<Rightarrow> bool" for listing root where
  child: "(i, d) \<in> set listing \<Longrightarrow> node_p d = root \<Longrightarrow> reaches listing root i"
| chain: "(i, d) \<in> set listing \<Longrightarrow> reaches listing root (node_p d) \<Longrightarrow> reaches listing root i"

text \<open>The record the walk builds for a file node whose attributes can be read.\<close>

definition info_of :: "string \<times> node \<Rightarrow> file_info" where
  "info_of = (\<lambda>(i, d).
     \<lparr>info_id = i,
      info_name = (case node_a d of Some (Attrs (Some n)) \<Rightarrow> n | _ \<Rightarrow> ''unknown''),
      info_data = d\<rparr>)"

text \<open>
  Well-formed listings: only folders have children, and the name of every file can be
  read (line 208 does not raise on it).
\<close>

definition only_folders_have_children :: "listing \<Rightarrow> bool" where
  "only_folders_have_children listing =
     (\<forall>(i, d) \<in> set listing. \<forall>(j, dj) \<in> set listing. node_p d = j \<longrightarrow> node_t dj = 1)"

definition readable_files :: "listing \<Rightarrow> bool" where
  "readable_files listing =
     (\<forall>(i, d) \<in> set listing. node_t d = 0 \<longrightarrow> (case file_name d of Inl err \<Rightarrow> False | Inr n \<Rightarrow> True))"

text \<open>
  A scripted environment to run the model on concrete inputs: the listing is fixed, the
  remote calls raise on the ids in \<open>failing\<close>, the disk accepts a write when \<open>disk_ok\<close>,
  the clock stands still, and the environment itself is the list of answers still to be
  typed at the console.
\<close>

definition scripted :: "listing \<Rightarrow> string list \<Rightarrow> bool \<Rightarrow> string list prims" where
  "scripted listing failing disk_ok =
     \<lparr>get_files = (\<lambda>e. listing),
      destroy = (\<lambda>i e. (i \<notin> set failing, e)),
      rename = (\<lambda>i n e. (i \<notin> set failing, e)),
      write_backup = (\<lambda>f b e. (disk_ok, e)),
      now_isoformat = (\<lambda>e. ''2024-01-01T00:00:00''),
      now_strftime = (\<lambda>e. ''20240101_000000''),
      input = (\<lambda>p e. (case e of [] \<Rightarrow> ([], []) | x # xs \<Rightarrow> (x, xs)))\<rparr>"

definition start :: "string list \<Rightarrow> string list world" where
  "start answers = \<lparr>env = answers, trace = []\<rparr>"

definition plain_file :: "string \<Rightarrow> string \<Rightarrow> file_info" where
  "plain_file i n =
     \<lparr>info_id = i, info_name = n,
      info_data = \<lparr>node_p = ''F'', node_t = 0, node_a = Some (Attrs (Some n))\<rparr>\<rparr>"

definition file_node :: "string \<Rightarrow> string \<Rightarrow> node" where
  "file_node parent n = \<lparr>node_p = parent, node_t = 0, node_a = Some (Attrs (Some n))\<rparr>"

definition folder_node :: "string \<Rightarrow> string \<Rightarrow> node" where
  "folder_node parent n = \<lparr>node_p = parent, node_t = 1, node_a = Some (Attrs (Some n))\<rparr>"

text \<open>
  The name under which the folder lookup sees a node, and the two ways a node can match
  a query: a folder whose name is the query, and a folder whose name contains it.
\<close>

definition folder_name :: "node \<Rightarrow> string option" where
  "folder_name nd = (case node_a nd of Some (Attrs (Some n)) \<Rightarrow> Some n | _ \<Rightarrow> None)"

definition exact_match :: "string \<Rightarrow> string \<times> node \<Rightarrow> bool" where
  "exact_match q = (\<lambda>(i, nd). node_t nd = 1 \<and> folder_name nd = Some q)"

definition substring_match :: "string \<Rightarrow> string \<times> node \<Rightarrow> bool" where
  "substring_match q = (\<lambda>(i, nd). node_t nd = 1 \<and>
     (case folder_name nd of Some n \<Rightarrow> contains n q | None \<Rightarrow> False))"

text \<open>
  The confirmation pass as the specification words it: the candidates are presented one
  after the other, each with its name, and the first one confirmed is returned; nothing
  is returned when all are declined.
\<close>

fun confirm_in_turn ::
  "'e prims \<Rightarrow> (string \<times> node) list \<Rightarrow> 'e world \<Rightarrow> (string \<times> node) option \<times> 'e world" where
  "confirm_in_turn M [] w = (None, w)"
| "confirm_in_turn M (c # cands) w =
     (let n = (case folder_name (snd c) of Some n \<Rightarrow> n | None \<Rightarrow> []);
          (confirm, e) = input M n (env w);
          w' = w\<lparr>env := e, trace := trace w @ [(Input n, True)]\<rparr>
      in if lower confirm = ''y'' then (Some c, w') else confirm_in_turn M cands w')"

text \<open>
  The attributes of every node can be read by the lookup: the key \<open>a\<close> is there, and its
  value is not a text with the letter \<open>n\<close>.
\<close>

definition usable_attrs :: "listing \<Rightarrow> bool" where
  "usable_attrs listing =
     (\<forall>(i, nd) \<in> set listing.
        (case node_a nd of
           None \<Rightarrow> False
         | Some NoAttrs \<Rightarrow> True
         | Some (Raw s) \<Rightarrow> CHR ''n'' \<notin> set s
         | Some (Attrs n) \<Rightarrow> True))"

text \<open>
  The nodes below a root as the walk sees them: a node whose parent is the root, or whose
  parent is a folder of the listing that is itself below the root. The parent relation
  restricted to these nodes, the file nodes among them, and the condition that the name
  of each of these files can be read (line 208 does not raise on it).
\<close>

inductive descends :: "listing \<Rightarrow> string \<Rightarrow> string \<Rightarrow> bool" for listing root where
  child: "(i, d) \<in> set listing \<Longrightarrow> node_p d = root \<Longrightarrow> descends listing root i"
| chain: "(i, d) \<in> set listing \<Longrightarrow> (node_p d, dj) \<in> set listing \<Longrightarrow> node_t dj = 1 \<Longrightarrow>
          descends listing root (node_p d) \<Longrightarrow> descends listing root i"

definition subtree_rel :: "listing \<Rightarrow> string \<Rightarrow> (string \<times> string) set" where
  "subtree_rel listing root = {(i, node_p d) | i d. (i, d) \<in> set listing \<and> descends listing root i}"

definition file_descendants :: "listing \<Rightarrow> string \<Rightarrow> (string \<times> node) set" where
  "file_descendants listing root =
     {x \<in> set listing. node_t (snd x) = 0 \<and> descends listing root (fst x)}"

definition readable_below :: "listing \<Rightarrow> string \<Rightarrow> bool" where
  "readable_below listing root =
     (\<forall>x \<in> file_descendants listing root. (case file_name (snd x) of Inl err \<Rightarrow> False | Inr n \<Rightarrow> True))"

text \<open>
  What one item of the listing adds to the walk from \<open>pid\<close>: itself when it is a file
  under \<open>pid\<close>, the files below it when it is a folder under \<open>pid\<close>, nothing otherwise.
\<close>

definition contrib :: "listing \<Rightarrow> string \<Rightarrow> string \<times> node \<Rightarrow> (string \<times> node) set" where
  "contrib listing pid x =
     (if node_p (snd x) = pid then
        (if node_t (snd x) = 0 then {x}
         else if node_t (snd x) = 1 then file_descendants listing (fst x)
         else {})
      else {})"

text \<open>
  The walk from \<open>pid\<close> collects the set \<open>S\<close>: from some depth on it returns normally, having
  appended to \<open>all_files\<close> the records of the nodes of \<open>S\<close>, each once.
\<close>

definition collects :: "listing \<Rightarrow> string \<Rightarrow> listing \<Rightarrow> (string \<times> node) set \<Rightarrow> bool" where
  "collects listing pid rest S =
     (\<exists>d. \<forall>d' \<ge> d. \<forall>acc. \<exists>res.
        traverse d' listing pid rest acc = Some (Inr (acc @ res))
        \<and> set res = info_of ` S \<and> distinct (map info_id res))"

text \<open>The ids the walk from \<open>root\<close> is called on: the root and the folders below it.\<close>

definition walked :: "listing \<Rightarrow> string \<Rightarrow> string \<Rightarrow> bool" where
  "walked listing root pid =
     (pid = root \<or> (\<exists>d. (pid, d) \<in> set listing \<and> node_t d = 1 \<and> descends listing root pid))"

section \<open>Auxiliary facts\<close>

subsection \<open>Digits, suffixes and names\<close>

lemma lt10_cases: "d < 10 \<Longrightarrow> d \<in> {0, 1, 2, 3, 4, 5, 6, 7, 8, 9::nat}"
  by auto

lemma digit_char_props:
  assumes "d < 10"
  shows "is_digit (digit_char d)" and "digit_val (digit_char d) = d"
  using lt10_cases [OF assms]
  by (auto simp: is_digit_def digit_val_def digit_char_def)

lemma str_nat_digits: "\<forall>c \<in> set (str_nat n). is_digit c"
proof (induction n rule: str_nat.induct)
  case (1 n)
  show ?case
  proof (cases "n < 10")
    case True
    then show ?thesis by (subst str_nat.simps) (simp add: digit_char_props)
  next
    case False
    then show ?thesis using 1 by (subst str_nat.simps) (simp add: digit_char_props)
  qed
qed

lemma int_of_str_snoc: "int_of_str (s @ [c]) = 10 * int_of_str s + digit_val c"
  by (simp add: int_of_str_def)

lemma int_of_str_nat: "int_of_str (str_nat n) = n"
proof (induction n rule: str_nat.induct)
  case (1 n)
  show ?case
  proof (cases "n < 10")
    case True
    then show ?thesis
      by (subst str_nat.simps) (simp add: digit_char_props int_of_str_def)
  next
    case False
    then have "int_of_str (str_nat n) = 10 * (n div 10) + n mod 10"
      using 1 by (subst str_nat.simps) (simp add: int_of_str_snoc digit_char_props)
    then show ?thesis by simp
  qed
qed

lemma int_of_str_zeros: "int_of_str (replicate k CHR ''0'' @ s) = int_of_str s"
proof -
  have "foldl (\<lambda>acc c. 10 * acc + digit_val c) 0 (replicate k CHR ''0'') = 0"
    by (induction k) (simp_all add: digit_val_def)
  then show ?thesis by (simp add: int_of_str_def)
qed

lemma int_of_format_03d: "int_of_str (format_03d n) = n"
  by (simp add: format_03d_def int_of_str_zeros int_of_str_nat)

lemma format_03d_digits: "\<forall>c \<in> set (format_03d n). is_digit c"
proof
  fix c assume "c \<in> set (format_03d n)"
  then have "c = CHR ''0'' \<or> c \<in> set (str_nat n)"
    by (auto simp: format_03d_def)
  moreover have "is_digit CHR ''0''" by (simp add: is_digit_def)
  ultimately show "is_digit c" using str_nat_digits [of n] by blast
qed

lemma format_03d_length: "3 \<le> length (format_03d n)"
  by (simp add: format_03d_def)

lemma str_nat_length: "n < 1000 \<Longrightarrow> length (str_nat n) \<le> 3"
  by (subst str_nat.simps, subst str_nat.simps, subst str_nat.simps) simp

lemma format_03d_length3: "n < 1000 \<Longrightarrow> length (format_03d n) = 3"
  using str_nat_length [of n] by (simp add: format_03d_def)

lemma rfind_neg: "rfind s c < 0 \<Longrightarrow> rfind s c = - 1"
  by (induction s) (auto simp: Let_def split: if_splits)

lemma rfind_ge: "- 1 \<le> rfind s c"
  by (induction s) (auto simp: Let_def)

lemma rfind_split:
  "0 \<le> rfind s c \<Longrightarrow> \<exists>pre post. s = pre @ c # post \<and> int (length pre) = rfind s c \<and> c \<notin> set post"
proof (induction s)
  case Nil
  then show ?case by simp
next
  case (Cons x xs)
  show ?case
  proof (cases "0 \<le> rfind xs c")
    case True
    with Cons.IH obtain pre post where
      "xs = pre @ c # post" "int (length pre) = rfind xs c" "c \<notin> set post" by blast
    then have "x # xs = (x # pre) @ c # post \<and> int (length (x # pre)) = rfind (x # xs) c \<and> c \<notin> set post"
      using True by (simp add: Let_def)
    then show ?thesis by blast
  next
    case False
    with Cons.prems have xc: "x = c" by (simp add: Let_def split: if_splits)
    have "c \<notin> set xs"
      using False
    proof (induction xs)
      case Nil then show ?case by simp
    next
      case (Cons y ys)
      then show ?case by (auto simp: Let_def split: if_splits)
    qed
    then have "x # xs = [] @ c # xs \<and> int (length ([]::string)) = rfind (x # xs) c \<and> c \<notin> set xs"
      using False xc by (simp add: Let_def)
    then show ?thesis by blast
  qed
qed

lemma path_suffix_shape:
  "path_suffix s = [] \<or> (\<exists>r. path_suffix s = CHR ''.'' # r \<and> r \<noteq> [] \<and> CHR ''.'' \<notin> set r)"
proof (cases "0 < rfind (path_name s) CHR ''.'' \<and> rfind (path_name s) CHR ''.'' < int (length (path_name s)) - 1")
  case False
  then have "path_suffix s = []" by (auto simp: path_suffix_def Let_def)
  then show ?thesis by simp
next
  case True
  then have "0 \<le> rfind (path_name s) CHR ''.''" by simp
  from rfind_split [OF this] obtain pre post where
    sp: "path_name s = pre @ CHR ''.'' # post" "int (length pre) = rfind (path_name s) CHR ''.''"
        "CHR ''.'' \<notin> set post" by blast
  have n: "nat (rfind (path_name s) CHR ''.'') = length pre" using sp(2) by simp
  have "path_suffix s = drop (length pre) (path_name s)"
    using True n by (simp add: path_suffix_def Let_def)
  then have ps: "path_suffix s = CHR ''.'' # post" using sp(1) by simp
  have "post \<noteq> []" using True sp(1) sp(2) by auto
  with ps sp(3) show ?thesis by blast
qed

lemma path_suffix_endswith: "endswith (path_name s) (path_suffix s)"
  by (auto simp: path_suffix_def Let_def endswith_def)

lemma split_no_sep: "sep \<notin> set s \<Longrightarrow> split s sep = [s]"
  by (induction s) auto

lemma path_name_plain: "CHR ''/'' \<notin> set s \<Longrightarrow> s \<noteq> ''.'' \<Longrightarrow> path_name s = s"
  by (cases "s = []") (simp_all add: path_name_def split_no_sep)

lemma takeWhile_digits:
  assumes "\<forall>c \<in> set ds. is_digit c" and "e = [] \<or> (\<exists>r. e = CHR ''.'' # r)"
  shows "takeWhile is_digit (ds @ e) = ds"
proof -
  have "\<not> is_digit CHR ''.''" by (simp add: is_digit_def)
  with assms show ?thesis by (auto simp: takeWhile_append2)
qed

lemma index_of_new_name:
  "int_of_str (takeWhile is_digit (drop (length cname + 1) (cname @ ''_'' @ format_03d k @ path_suffix s))) = k"
proof -
  have "e = [] \<or> (\<exists>r. e = CHR ''.'' # r)" if "e = path_suffix s" for e
    using path_suffix_shape [of s] that by auto
  then have "takeWhile is_digit (format_03d k @ path_suffix s) = format_03d k"
    using takeWhile_digits [OF format_03d_digits] by blast
  then show ?thesis by (simp add: int_of_format_03d)
qed

subsection \<open>The two loops\<close>

lemma delete_loop_dry: "delete_loop M True fs n w = (n + length fs, w)"
  by (induction fs arbitrary: n) auto

lemma delete_loop_live:
  "\<exists>tr. trace (snd (delete_loop M False fs n w)) = trace w @ tr
      \<and> map fst tr = map (\<lambda>f. Destroy (info_id f)) fs
      \<and> fst (delete_loop M False fs n w) + failed tr = n + length fs"
proof (induction fs arbitrary: n w)
  case Nil
  show ?case by (simp add: failed_def)
next
  case (Cons f fs)
  obtain ok e where d: "destroy M (info_id f) (env w) = (ok, e)"
    by (cases "destroy M (info_id f) (env w)")
  let ?w = "w\<lparr>env := e, trace := trace w @ [(Destroy (info_id f), ok)]\<rparr>"
  let ?n = "if ok then n + 1 else n"
  have step: "delete_loop M False (f # fs) n w = delete_loop M False fs ?n ?w"
    using d by simp
  from Cons.IH [of ?n ?w] obtain tr where
    tr: "trace (snd (delete_loop M False fs ?n ?w)) = trace ?w @ tr"
        "map fst tr = map (\<lambda>f. Destroy (info_id f)) fs"
        "fst (delete_loop M False fs ?n ?w) + failed tr = ?n + length fs"
    by blast
  show ?case
  proof (intro exI conjI)
    show "trace (snd (delete_loop M False (f # fs) n w)) = trace w @ ((Destroy (info_id f), ok) # tr)"
      using tr(1) unfolding step by simp
    show "map fst ((Destroy (info_id f), ok) # tr) = map (\<lambda>f. Destroy (info_id f)) (f # fs)"
      using tr(2) by simp
    show "fst (delete_loop M False (f # fs) n w) + failed ((Destroy (info_id f), ok) # tr) = n + length (f # fs)"
      using tr(3) unfolding step by (cases ok) (simp_all add: failed_def)
  qed
qed

lemma enumerate_Cons: "enumerate n (x # xs) = (n, x) # enumerate (Suc n) xs"
  by simp

lemma rename_loop_entries:
  "fst (rename_loop M cname dry idx fs entries n w) = entries @ map (plan_entry cname) (enumerate idx fs)"
proof (induction fs arbitrary: idx entries n w)
  case Nil
  show ?case by simp
next
  case (Cons f fs)
  show ?case
    using Cons.IH by (cases dry) (simp_all add: Let_def plan_entry_def split: prod.splits)
qed

lemma rename_loop_dry:
  "snd (rename_loop M cname True idx fs entries n w) = (n + length fs, w)"
  by (induction fs arbitrary: idx entries n) (auto simp: Let_def)

lemma rename_loop_live:
  "\<exists>tr. trace (snd (snd (rename_loop M cname False idx fs entries n w))) = trace w @ tr
      \<and> map fst tr = map (\<lambda>e. Rename (file_id e) (new_name e)) (map (plan_entry cname) (enumerate idx fs))
      \<and> fst (snd (rename_loop M cname False idx fs entries n w)) + failed tr = n + length fs"
proof (induction fs arbitrary: idx entries n w)
  case Nil
  show ?case by (simp add: failed_def)
next
  case (Cons f fs)
  define new where "new = cname @ ''_'' @ format_03d idx @ path_suffix (info_name f)"
  define es where "es = entries @ [\<lparr>file_id = info_id f, original_name = info_name f, new_name = new\<rparr>]"
  obtain ok e where d: "rename M (info_id f) new (env w) = (ok, e)"
    by (cases "rename M (info_id f) new (env w)")
  let ?w = "w\<lparr>env := e, trace := trace w @ [(Rename (info_id f) new, ok)]\<rparr>"
  let ?n = "if ok then n + 1 else n"
  have step: "rename_loop M cname False idx (f # fs) entries n w
                = rename_loop M cname False (idx + 1) fs es ?n ?w"
    using d by (simp add: Let_def new_def es_def)
  from Cons.IH [of "idx + 1" es ?n ?w] obtain tr where
    tr: "trace (snd (snd (rename_loop M cname False (idx + 1) fs es ?n ?w))) = trace ?w @ tr"
        "map fst tr = map (\<lambda>e. Rename (file_id e) (new_name e)) (map (plan_entry cname) (enumerate (idx + 1) fs))"
        "fst (snd (rename_loop M cname False (idx + 1) fs es ?n ?w)) + failed tr = ?n + length fs"
    by blast
  show ?case
  proof (intro exI conjI)
    show "trace (snd (snd (rename_loop M cname False idx (f # fs) entries n w)))
            = trace w @ ((Rename (info_id f) new, ok) # tr)"
      using tr(1) unfolding step by simp
    show "map fst ((Rename (info_id f) new, ok) # tr)
            = map (\<lambda>e. Rename (file_id e) (new_name e)) (map (plan_entry cname) (enumerate idx (f # fs)))"
      using tr(2) by (simp add: plan_entry_def new_def)
    show "fst (snd (rename_loop M cname False idx (f # fs) entries n w))
            + failed ((Rename (info_id f) new, ok) # tr) = n + length (f # fs)"
      using tr(3) unfolding step by (cases ok) (simp_all add: failed_def)
  qed
qed

subsection \<open>The bodies of the two operations\<close>

lemma files_to_rename_Nil:
  "filter (\<lambda>f. \<not> is_pdf f) all_files = [] \<Longrightarrow> files_to_rename all_files = []"
  by (simp add: files_to_rename_def)

lemma files_to_rename_Nil_iff:
  "files_to_rename all_files = [] \<longleftrightarrow> filter (\<lambda>f. \<not> is_pdf f) all_files = []"
proof -
  have "length (files_to_rename all_files) = length (filter (\<lambda>f. \<not> is_pdf f) all_files)"
    by (simp add: files_to_rename_def)
  then show ?thesis by (metis length_0_conv)
qed

lemma rename_files_from_backup:
  "fst (snd (rename_files_from M cname dry_run all_files w)) =
     (if files_to_rename all_files = [] then None
      else Some \<lparr>timestamp = now_isoformat M (env w), custom_name = cname,
                 files = map (plan_entry cname) (enumerate 1 (files_to_rename all_files))\<rparr>)"
proof (cases "files_to_rename all_files = []")
  case True
  then show ?thesis by (simp add: rename_files_from_def files_to_rename_Nil_iff)
next
  case False
  obtain es n w' where rl: "rename_loop M cname dry_run 1 (files_to_rename all_files) [] 0 w = (es, n, w')"
    by (cases "rename_loop M cname dry_run 1 (files_to_rename all_files) [] 0 w") auto
  have "es = map (plan_entry cname) (enumerate 1 (files_to_rename all_files))"
    using rename_loop_entries [of M cname dry_run 1 "files_to_rename all_files" "[]" 0 w] rl by simp
  then show ?thesis
    using False rl by (simp add: rename_files_from_def files_to_rename_Nil_iff Let_def split: prod.splits)
qed

lemma rename_plan_eq:
  "rename_plan M cname dry_run all_files w = map (plan_entry cname) (enumerate 1 (files_to_rename all_files))"
  by (simp add: rename_plan_def rename_files_from_backup)

lemma rename_files_from_dry:
  "rename_files_from M cname True all_files w
     = (length (files_to_rename all_files), fst (snd (rename_files_from M cname True all_files w)), w)"
proof (cases "files_to_rename all_files = []")
  case True
  then show ?thesis by (simp add: rename_files_from_def files_to_rename_Nil_iff)
next
  case False
  obtain es n w' where rl: "rename_loop M cname True 1 (files_to_rename all_files) [] 0 w = (es, n, w')"
    by (cases "rename_loop M cname True 1 (files_to_rename all_files) [] 0 w") auto
  have "(n, w') = (length (files_to_rename all_files), w)"
    using rename_loop_dry [of M cname 1 "files_to_rename all_files" "[]" 0 w] rl by simp
  then show ?thesis
    using False rl by (simp add: rename_files_from_def files_to_rename_Nil_iff Let_def)
qed

lemma rename_files_from_live:
  fixes M :: "'e prims" and all_files :: "file_info list" and cname :: string and w :: "'e world"
  defines "fs \<equiv> files_to_rename all_files"
  defines "R \<equiv> rename_files_from M cname False all_files w"
  defines "L \<equiv> rename_loop M cname False 1 (files_to_rename all_files) [] 0 w"
  shows "\<exists>tr. map fst tr = map (\<lambda>e. Rename (file_id e) (new_name e)) (map (plan_entry cname) (enumerate 1 fs))
           \<and> fst R + failed tr = length fs
           \<and> new_calls w (snd (snd R)) =
               tr @ (if 0 < fst R
                     then [(WriteBackup (''backup_'' @ now_strftime M (env (snd (snd L))) @ ''.json'')
                              \<lparr>timestamp = now_isoformat M (env w), custom_name = cname,
                               files = map (plan_entry cname) (enumerate 1 fs)\<rparr>,
                            fst (write_backup M (''backup_'' @ now_strftime M (env (snd (snd L))) @ ''.json'')
                              \<lparr>timestamp = now_isoformat M (env w), custom_name = cname,
                               files = map (plan_entry cname) (enumerate 1 fs)\<rparr> (env (snd (snd L)))))]
                     else [])"
proof (cases "fs = []")
  case True
  then have "R = (0, None, w)"
    by (simp add: R_def fs_def rename_files_from_def files_to_rename_Nil_iff)
  then show ?thesis using True by (simp add: new_calls_def failed_def)
next
  case False
  obtain es n w' where rl: "L = (es, n, w')" by (cases L) auto
  have es: "es = map (plan_entry cname) (enumerate 1 fs)"
    using rename_loop_entries [of M cname False 1 fs "[]" 0 w] rl by (simp add: L_def fs_def)
  from rename_loop_live [of M cname 1 fs "[]" 0 w] obtain tr where
    tr: "trace w' = trace w @ tr"
        "map fst tr = map (\<lambda>e. Rename (file_id e) (new_name e)) (map (plan_entry cname) (enumerate 1 fs))"
        "n + failed tr = length fs"
    using rl by (auto simp: L_def fs_def)
  let ?b = "\<lparr>timestamp = now_isoformat M (env w), custom_name = cname, files = es\<rparr>"
  let ?name = "''backup_'' @ now_strftime M (env w') @ ''.json''"
  obtain ok e where wb: "write_backup M ?name ?b (env w') = (ok, e)"
    by (cases "write_backup M ?name ?b (env w')")
  have R: "R = (if 0 < n then (n, Some ?b, w'\<lparr>env := e, trace := trace w' @ [(WriteBackup ?name ?b, ok)]\<rparr>)
                else (n, Some ?b, w'))"
    using False rl wb
    by (simp add: R_def rename_files_from_def files_to_rename_Nil_iff Let_def L_def fs_def)
  show ?thesis
  proof (intro exI conjI)
    show "map fst tr = map (\<lambda>e. Rename (file_id e) (new_name e)) (map (plan_entry cname) (enumerate 1 fs))"
      by (rule tr(2))
    show "fst R + failed tr = length fs" using tr(3) R by simp
    show "new_calls w (snd (snd R)) =
               tr @ (if 0 < fst R
                     then [(WriteBackup (''backup_'' @ now_strftime M (env (snd (snd L))) @ ''.json'')
                              \<lparr>timestamp = now_isoformat M (env w), custom_name = cname,
                               files = map (plan_entry cname) (enumerate 1 fs)\<rparr>,
                            fst (write_backup M (''backup_'' @ now_strftime M (env (snd (snd L))) @ ''.json'')
                              \<lparr>timestamp = now_isoformat M (env w), custom_name = cname,
                               files = map (plan_entry cname) (enumerate 1 fs)\<rparr> (env (snd (snd L)))))]
                     else [])"
      using R tr(1) rl wb es by (simp add: new_calls_def)
  qed
qed

lemma delete_pdfs_from_dry:
  "delete_pdfs_from M True all_files w = (length (filter is_pdf all_files), w)"
  by (simp add: delete_pdfs_from_def Let_def delete_loop_dry)

lemma delete_pdfs_from_live:
  "\<exists>tr. new_calls w (snd (delete_pdfs_from M False all_files w)) = tr
      \<and> map fst tr = map (\<lambda>f. Destroy (info_id f)) (filter is_pdf all_files)
      \<and> fst (delete_pdfs_from M False all_files w) + failed tr = length (filter is_pdf all_files)"
proof (cases "filter is_pdf all_files = []")
  case True
  then show ?thesis by (simp add: delete_pdfs_from_def new_calls_def failed_def)
next
  case False
  from delete_loop_live [of M "filter is_pdf all_files" 0 w] obtain tr where
    "trace (snd (delete_loop M False (filter is_pdf all_files) 0 w)) = trace w @ tr"
    "map fst tr = map (\<lambda>f. Destroy (info_id f)) (filter is_pdf all_files)"
    "fst (delete_loop M False (filter is_pdf all_files) 0 w) + failed tr = length (filter is_pdf all_files)"
    by auto
  then show ?thesis using False by (simp add: delete_pdfs_from_def new_calls_def)
qed

lemma ex1: "files_to_rename [plain_file ''1'' ''b.txt'', plain_file ''2'' ''a.txt'', plain_file ''3'' ''x.pdf'']
   = [plain_file ''2'' ''a.txt'', plain_file ''1'' ''b.txt'']"
  by (simp add: files_to_rename_def is_pdf_def endswith_def lower_def lower_char_def plain_file_def)

lemma format_03d_1: "format_03d (Suc 0) = ''001''"
  by (simp add: format_03d_def str_nat.simps digit_char_def numeral_2_eq_2)

lemma format_03d_2: "format_03d (Suc (Suc 0)) = ''002''"
  by (simp add: format_03d_def str_nat.simps digit_char_def numeral_2_eq_2)

lemma index_of_plan_entry:
  "int_of_str (takeWhile is_digit (drop (length cname + 1) (new_name (plan_entry cname x)))) = fst x"
  using index_of_new_name [of cname "fst x" "info_name (snd x)"]
  by (cases x) (simp add: plan_entry_def)

lemma new_names_distinct: "distinct (map new_name (map (plan_entry cname) (enumerate n fs)))"
proof -
  let ?h = "\<lambda>s. int_of_str (takeWhile is_digit (drop (length cname + 1) s))"
  have "map ?h (map new_name (map (plan_entry cname) (enumerate n fs))) = map fst (enumerate n fs)"
    unfolding map_map by (rule map_cong [OF refl]) (simp only: o_apply index_of_plan_entry)
  then have "distinct (map ?h (map new_name (map (plan_entry cname) (enumerate n fs))))"
    by simp
  then show ?thesis by (simp only: distinct_map)
qed

lemma plan_nth:
  assumes "i < length fs"
  shows "map (plan_entry cname) (enumerate 1 fs) ! i =
           \<lparr>file_id = info_id (fs ! i), original_name = info_name (fs ! i),
            new_name = cname @ ''_'' @ format_03d (i + 1) @ path_suffix (info_name (fs ! i))\<rparr>"
  using assms by (simp add: nth_enumerate_eq plan_entry_def)

lemma files_to_rename_sorted: "sorted (map info_name (files_to_rename all_files))"
  by (simp add: files_to_rename_def)

lemma files_to_rename_stable:
  "filter (\<lambda>f. info_name f = k) (files_to_rename all_files)
     = filter (\<lambda>f. info_name f = k) (filter (\<lambda>f. \<not> is_pdf f) all_files)"
  unfolding files_to_rename_def by (rule sort_key_stable)

section \<open>The claims\<close>

subsection \<open>C1: the names of the rename plan\<close>

text \<open>
  C1. Let \<open>fs\<close> be the files the renamer works on: the collected files that the deleter
  does not select, sorted by name. The rename plan has one entry per file of \<open>fs\<close>, in that
  order, and the entry at position \<open>i\<close> (from 0) carries the new name
  \<open>custom_name + "_" + format(i + 1, "03d") + suffix\<close>, \<open>suffix\<close> being \<open>Path(name).suffix\<close>
  of the original name, unchanged. The order is the stable sort by original name: the names
  ascend, and files of equal name keep the order in which they were collected. The new
  names of one plan are pairwise distinct. The index text is made of decimal digits, at
  least three of them (exactly three below 1000), and spells the index; the suffix is an
  end piece of the name's last path component.
\<close>

theorem rename_plan_names:
  "(let fs = files_to_rename all_files; plan = rename_plan M cname dry_run all_files w in
      length plan = length fs
    \<and> (\<forall>i < length fs. plan ! i =
          \<lparr>file_id = info_id (fs ! i), original_name = info_name (fs ! i),
           new_name = cname @ ''_'' @ format_03d (i + 1) @ path_suffix (info_name (fs ! i))\<rparr>)
    \<and> sorted (map info_name fs)
    \<and> (\<forall>k. filter (\<lambda>f. info_name f = k) fs
             = filter (\<lambda>f. info_name f = k) (filter (\<lambda>f. \<not> is_pdf f) all_files))
    \<and> distinct (map new_name plan))
   \<and> (\<forall>k. int_of_str (format_03d k) = k \<and> 3 \<le> length (format_03d k)
           \<and> (\<forall>c \<in> set (format_03d k). is_digit c)
           \<and> (k < 1000 \<longrightarrow> length (format_03d k) = 3))
   \<and> (\<forall>s. endswith (path_name s) (path_suffix s))"
proof -
  let ?fs = "files_to_rename all_files"
  let ?plan = "rename_plan M cname dry_run all_files w"
  have p: "?plan = map (plan_entry cname) (enumerate 1 ?fs)" by (rule rename_plan_eq)
  have 1: "length ?plan = length ?fs" by (simp add: p)
  have 2: "\<forall>i < length ?fs. ?plan ! i =
          \<lparr>file_id = info_id (?fs ! i), original_name = info_name (?fs ! i),
           new_name = cname @ ''_'' @ format_03d (i + 1) @ path_suffix (info_name (?fs ! i))\<rparr>"
    unfolding p using plan_nth by blast
  have 3: "sorted (map info_name ?fs)" by (rule files_to_rename_sorted)
  have 4: "\<forall>k. filter (\<lambda>f. info_name f = k) ?fs
             = filter (\<lambda>f. info_name f = k) (filter (\<lambda>f. \<not> is_pdf f) all_files)"
    using files_to_rename_stable by blast
  have 5: "distinct (map new_name ?plan)" unfolding p by (rule new_names_distinct)
  have 6: "\<forall>k. int_of_str (format_03d k) = k \<and> 3 \<le> length (format_03d k)
           \<and> (\<forall>c \<in> set (format_03d k). is_digit c)
           \<and> (k < 1000 \<longrightarrow> length (format_03d k) = 3)"
    using int_of_format_03d format_03d_length format_03d_digits format_03d_length3 by blast
  have 7: "\<forall>s. endswith (path_name s) (path_suffix s)"
    using path_suffix_endswith by blast
  from 1 2 3 4 5 6 7 show ?thesis unfolding Let_def by blast
qed

theorem rename_plan_names_witness:
  "rename_plan (scripted [] [] True) ''doc'' True
      [plain_file ''1'' ''b.txt'', plain_file ''2'' ''a.txt'', plain_file ''3'' ''x.pdf''] (start [])
     = [\<lparr>file_id = ''2'', original_name = ''a.txt'', new_name = ''doc_001.txt''\<rparr>,
        \<lparr>file_id = ''1'', original_name = ''b.txt'', new_name = ''doc_002.txt''\<rparr>]"
proof -
  let ?all = "[plain_file ''1'' ''b.txt'', plain_file ''2'' ''a.txt'', plain_file ''3'' ''x.pdf'']"
  let ?fs = "[plain_file ''2'' ''a.txt'', plain_file ''1'' ''b.txt'']"
  let ?plan = "rename_plan (scripted [] [] True) ''doc'' True ?all (start [])"
  note t = rename_plan_names [of ?all "scripted [] [] True" "''doc''" True "start []", unfolded Let_def ex1]
  from t have len: "length ?plan = length ?fs" by blast
  from t have n: "\<forall>i < length ?fs. ?plan ! i =
          \<lparr>file_id = info_id (?fs ! i), original_name = info_name (?fs ! i),
           new_name = ''doc'' @ ''_'' @ format_03d (i + 1) @ path_suffix (info_name (?fs ! i))\<rparr>"
    by blast
  have n0: "?plan ! 0 = \<lparr>file_id = ''2'', original_name = ''a.txt'', new_name = ''doc_001.txt''\<rparr>"
    using n [rule_format, of 0]
    by (simp add: format_03d_1 plain_file_def path_suffix_def path_name_def)
  have n1: "?plan ! 1 = \<lparr>file_id = ''1'', original_name = ''b.txt'', new_name = ''doc_002.txt''\<rparr>"
    using n [rule_format, of 1]
    by (simp add: format_03d_2 plain_file_def path_suffix_def path_name_def)
  show ?thesis
  proof (rule nth_equalityI)
    show "length ?plan = length [\<lparr>file_id = ''2'', original_name = ''a.txt'', new_name = ''doc_001.txt''\<rparr>,
        \<lparr>file_id = ''1'', original_name = ''b.txt'', new_name = ''doc_002.txt''\<rparr>]"
      using len by simp
  next
    fix i assume "i < length ?plan"
    then have "i = 0 \<or> i = 1" using len by auto
    then show "?plan ! i = [\<lparr>file_id = ''2'', original_name = ''a.txt'', new_name = ''doc_001.txt''\<rparr>,
        \<lparr>file_id = ''1'', original_name = ''b.txt'', new_name = ''doc_002.txt''\<rparr>] ! i"
      using n0 n1 by auto
  qed
qed

subsection \<open>Suffixes of some names\<close>

lemma suffix_tar_gz: "path_suffix ''a.tar.gz'' = ''.gz''"
  by (simp add: path_suffix_def path_name_def)

lemma suffix_dot_txt: "path_suffix ''.txt'' = []"
  by (simp add: path_suffix_def path_name_def)

lemma files_to_rename_single:
  "\<not> is_pdf f \<Longrightarrow> files_to_rename [f] = [f]"
  by (simp add: files_to_rename_def)

lemma not_pdf_tar_gz: "\<not> is_pdf (plain_file i ''a.tar.gz'')"
  by (simp add: is_pdf_def plain_file_def endswith_def lower_def lower_char_def)

lemma not_pdf_dot_txt: "\<not> is_pdf (plain_file i ''.txt'')"
  by (simp add: is_pdf_def plain_file_def endswith_def lower_def lower_char_def)

subsection \<open>C10: only the final suffix is kept\<close>

text \<open>
  C10. The new name of every planned rename ends with \<open>Path(name).suffix\<close> of the
  original name and with nothing else of it. That suffix is empty or a dot followed by at
  least one character and no further dot. So \<open>a.tar.gz\<close> is planned as
  \<open>custom_name_001.gz\<close>, the \<open>.tar\<close> being dropped, and \<open>.txt\<close>, whose suffix is empty,
  as \<open>custom_name_001\<close>.
\<close>

theorem final_suffix_only:
  "map new_name (rename_plan M cname dry_run all_files w)
     = map (\<lambda>(k, f). cname @ ''_'' @ format_03d k @ path_suffix (info_name f))
         (enumerate 1 (files_to_rename all_files))
   \<and> (path_suffix s = [] \<or> (\<exists>r. path_suffix s = CHR ''.'' # r \<and> r \<noteq> [] \<and> CHR ''.'' \<notin> set r))
   \<and> path_suffix ''a.tar.gz'' = ''.gz''
   \<and> path_suffix ''.txt'' = []
   \<and> map new_name (rename_plan M cname dry_run [plain_file i ''a.tar.gz''] w) = [cname @ ''_001.gz'']
   \<and> map new_name (rename_plan M cname dry_run [plain_file i ''.txt''] w) = [cname @ ''_001'']"
proof -
  have 1: "map new_name (rename_plan M cname dry_run all_files w)
     = map (\<lambda>(k, f). cname @ ''_'' @ format_03d k @ path_suffix (info_name f))
         (enumerate 1 (files_to_rename all_files))"
    unfolding rename_plan_eq map_map
    by (rule map_cong [OF refl]) (auto simp: plan_entry_def)
  have 5: "map new_name (rename_plan M cname dry_run [plain_file i ''a.tar.gz''] w) = [cname @ ''_001.gz'']"
    unfolding rename_plan_eq files_to_rename_single [OF not_pdf_tar_gz]
    by (simp add: plan_entry_def format_03d_1 plain_file_def suffix_tar_gz)
  have 6: "map new_name (rename_plan M cname dry_run [plain_file i ''.txt''] w) = [cname @ ''_001'']"
    unfolding rename_plan_eq files_to_rename_single [OF not_pdf_dot_txt]
    by (simp add: plan_entry_def format_03d_1 plain_file_def suffix_dot_txt)
  from 1 path_suffix_shape [of s] suffix_tar_gz suffix_dot_txt 5 6 show ?thesis by blast
qed

theorem final_suffix_only_witness:
  "map new_name (rename_plan (scripted [] [] True) ''doc'' False [plain_file ''7'' ''a.tar.gz''] (start []))
     = [''doc_001.gz'']
   \<and> map new_name (rename_plan (scripted [] [] True) ''doc'' False [plain_file ''8'' ''.txt''] (start []))
     = [''doc_001'']"
  using final_suffix_only [of "scripted [] [] True" "''doc''" False "[]" "start []" "[]" "''7''"]
        final_suffix_only [of "scripted [] [] True" "''doc''" False "[]" "start []" "[]" "''8''"]
  by simp

subsection \<open>Counts\<close>

lemma delete_count_le: "fst (delete_pdfs_from M dry_run all_files w) \<le> length (filter is_pdf all_files)"
proof (cases dry_run)
  case True
  then show ?thesis by (simp add: delete_pdfs_from_dry)
next
  case False
  then show ?thesis using delete_pdfs_from_live [of w M all_files] by auto
qed

lemma rename_count_le:
  "fst (rename_files_from M cname dry_run all_files w) \<le> length (files_to_rename all_files)"
proof (cases dry_run)
  case True
  then show ?thesis using rename_files_from_dry [where M=M and cname=cname and all_files=all_files and w=w] by (metis fst_conv order_refl)
next
  case False
  then show ?thesis using rename_files_from_live [where M=M and cname=cname and all_files=all_files and w=w] by auto
qed

lemma partition_lengths:
  "length (filter is_pdf all_files) + length (files_to_rename all_files) = length all_files"
  using sum_length_filter_compl [of is_pdf all_files] by (simp add: files_to_rename_def)

lemma plan_originals:
  assumes "e \<in> set (rename_plan M cname dry_run all_files w)"
  shows "\<exists>f \<in> set (files_to_rename all_files). original_name e = info_name f \<and> file_id e = info_id f"
proof -
  from assms obtain x where x: "x \<in> set (enumerate 1 (files_to_rename all_files))" "e = plan_entry cname x"
    unfolding rename_plan_eq by auto
  have "snd x \<in> set (map snd (enumerate 1 (files_to_rename all_files)))"
    using x(1) by (metis image_eqI set_map)
  then have "snd x \<in> set (files_to_rename all_files)" by simp
  moreover have "original_name e = info_name (snd x) \<and> file_id e = info_id (snd x)"
    using x(2) by (cases x) (simp add: plan_entry_def)
  ultimately show ?thesis by blast
qed

subsection \<open>C4: nothing is both deleted and renamed\<close>

text \<open>
  C4. For one list of collected files, the files the deleter selects and the files the
  renamer works on have nothing in common and together are all the files. No entry of the
  rename plan has an original name that ends, in lower case, with \<open>.pdf\<close>. The count
  returned by the deleter is at most the number of selected files and the count returned
  by the renamer at most the number of the others, so that the two counts together never
  exceed the number of collected files.
\<close>

theorem delete_rename_disjoint:
  "set (filter is_pdf all_files) \<inter> set (files_to_rename all_files) = {}
   \<and> length (filter is_pdf all_files) + length (files_to_rename all_files) = length all_files
   \<and> (\<forall>e \<in> set (rename_plan M cname dry_run all_files w). \<not> endswith (lower (original_name e)) ''.pdf'')
   \<and> fst (delete_pdfs_from M' dry_run' all_files w') \<le> length (filter is_pdf all_files)
   \<and> fst (rename_files_from M cname dry_run all_files w) \<le> length (files_to_rename all_files)
   \<and> fst (delete_pdfs_from M' dry_run' all_files w') + fst (rename_files_from M cname dry_run all_files w)
        \<le> length all_files"
proof -
  have 1: "set (filter is_pdf all_files) \<inter> set (files_to_rename all_files) = {}"
    by (auto simp: files_to_rename_def)
  have 3: "\<forall>e \<in> set (rename_plan M cname dry_run all_files w). \<not> endswith (lower (original_name e)) ''.pdf''"
  proof
    fix e assume "e \<in> set (rename_plan M cname dry_run all_files w)"
    from plan_originals [OF this] obtain f where
      "f \<in> set (files_to_rename all_files)" "original_name e = info_name f" by blast
    then show "\<not> endswith (lower (original_name e)) ''.pdf''"
      by (simp add: files_to_rename_def is_pdf_def)
  qed
  note 4 = delete_count_le [of M' dry_run' all_files w']
  note 5 = rename_count_le [of M cname dry_run all_files w]
  have 6: "fst (delete_pdfs_from M' dry_run' all_files w') + fst (rename_files_from M cname dry_run all_files w)
        \<le> length all_files"
    using 4 5 partition_lengths [of all_files] by linarith
  from 1 partition_lengths [of all_files] 3 4 5 6 show ?thesis by blast
qed

theorem delete_rename_disjoint_witness:
  "''x.pdf'' \<notin> original_name ` set (rename_plan (scripted [] [] True) ''doc'' False
               [plain_file ''1'' ''x.pdf'', plain_file ''2'' ''a.txt''] (start []))
   \<and> fst (delete_pdfs_from (scripted [] [] True) False
            [plain_file ''1'' ''x.pdf'', plain_file ''2'' ''a.txt''] (start []))
     + fst (rename_files_from (scripted [] [] True) ''doc'' False
            [plain_file ''1'' ''x.pdf'', plain_file ''2'' ''a.txt''] (start [])) \<le> 2"
proof -
  have "endswith (lower ''x.pdf'') ''.pdf''"
    by (simp add: endswith_def lower_def lower_char_def)
  then show ?thesis
    using delete_rename_disjoint [of "[plain_file ''1'' ''x.pdf'', plain_file ''2'' ''a.txt'']"
      "scripted [] [] True" "''doc''" False "start []" "scripted [] [] True" False "start []"]
    by auto
qed

subsection \<open>C9: the analyzer and the deleter disagree on names that are only an extension\<close>

lemma analyze_loop_counts:
  "st_pdf_files (analyze_loop fs st)
     = st_pdf_files st + length (filter (\<lambda>f. lower (path_suffix (info_name f)) = ''.pdf'') fs)
   \<and> st_other_files (analyze_loop fs st)
     = st_other_files st + length (filter (\<lambda>f. lower (path_suffix (info_name f)) \<noteq> ''.pdf'') fs)
   \<and> st_total_files (analyze_loop fs st) = st_total_files st"
  by (induction fs arbitrary: st) (simp_all add: Let_def)

lemma suffix_dot_pdf: "path_suffix ''.pdf'' = []" "path_suffix ''.PDF'' = []"
  by (simp_all add: path_suffix_def path_name_def)

lemma is_pdf_dot_pdf: "is_pdf (plain_file i ''.pdf'')" "is_pdf (plain_file i ''.PDF'')"
  by (simp_all add: is_pdf_def plain_file_def endswith_def lower_def lower_char_def)

lemma analyze_dot_pdf:
  assumes "n = ''.pdf'' \<or> n = ''.PDF''"
  shows "analyze_folder_from [plain_file i n]
           = \<lparr>st_total_files = 1, st_pdf_files = 0, st_other_files = 1, st_file_types = [[] \<mapsto> 1]\<rparr>"
  using assms suffix_dot_pdf
  by (auto simp: analyze_folder_from_def Let_def plain_file_def lower_def)

text \<open>
  C9. The analyzer counts a file as a PDF when the lower-cased \<open>Path(name).suffix\<close> is
  \<open>.pdf\<close>; the deleter selects a file when the lower-cased name ends with \<open>.pdf\<close>, and the
  renamer leaves out exactly the selected files. A file named \<open>.pdf\<close> or \<open>.PDF\<close> has the
  empty suffix: the analyzer counts it among the other files, under the extension \<open>''\<close>,
  while the deleter selects it and the renamer leaves it out. The analyzer's PDF count is
  then smaller than the number of files the deleter selects.
\<close>

theorem analyzer_deleter_mismatch:
  "st_pdf_files (analyze_folder_from all_files)
     = length (filter (\<lambda>f. lower (path_suffix (info_name f)) = ''.pdf'') all_files)
   \<and> st_other_files (analyze_folder_from all_files)
     = length (filter (\<lambda>f. lower (path_suffix (info_name f)) \<noteq> ''.pdf'') all_files)
   \<and> fst (delete_pdfs_from M True all_files w)
     = length (filter (\<lambda>f. endswith (lower (info_name f)) ''.pdf'') all_files)
   \<and> map fst (new_calls w (snd (delete_pdfs_from M False all_files w)))
     = map (\<lambda>f. Destroy (info_id f)) (filter (\<lambda>f. endswith (lower (info_name f)) ''.pdf'') all_files)
   \<and> map original_name (rename_plan M cname dry_run all_files w)
     = map info_name (sort_key info_name (filter (\<lambda>f. \<not> endswith (lower (info_name f)) ''.pdf'') all_files))
   \<and> (\<forall>n \<in> {''.pdf'', ''.PDF''}.
        analyze_folder_from [plain_file i n]
          = \<lparr>st_total_files = 1, st_pdf_files = 0, st_other_files = 1, st_file_types = [[] \<mapsto> 1]\<rparr>
      \<and> fst (delete_pdfs_from M True [plain_file i n] w) = 1
      \<and> map fst (new_calls w (snd (delete_pdfs_from M False [plain_file i n] w))) = [Destroy i]
      \<and> rename_plan M cname dry_run [plain_file i n] w = []
      \<and> st_pdf_files (analyze_folder_from [plain_file i n]) < length (filter is_pdf [plain_file i n]))"
proof -
  have isp: "is_pdf = (\<lambda>f. endswith (lower (info_name f)) ''.pdf'')"
    by (auto simp: is_pdf_def)
  have 1: "st_pdf_files (analyze_folder_from all_files)
     = length (filter (\<lambda>f. lower (path_suffix (info_name f)) = ''.pdf'') all_files)"
    by (simp add: analyze_folder_from_def analyze_loop_counts)
  have 2: "st_other_files (analyze_folder_from all_files)
     = length (filter (\<lambda>f. lower (path_suffix (info_name f)) \<noteq> ''.pdf'') all_files)"
    by (simp add: analyze_folder_from_def analyze_loop_counts)
  have 3: "fst (delete_pdfs_from M True all_files w)
     = length (filter (\<lambda>f. endswith (lower (info_name f)) ''.pdf'') all_files)"
    by (simp add: delete_pdfs_from_dry isp)
  have 4: "map fst (new_calls w (snd (delete_pdfs_from M False all_files w)))
     = map (\<lambda>f. Destroy (info_id f)) (filter (\<lambda>f. endswith (lower (info_name f)) ''.pdf'') all_files)"
    using delete_pdfs_from_live [of w M all_files] by (simp add: isp)
  have 5: "map original_name (rename_plan M cname dry_run all_files w)
     = map info_name (sort_key info_name (filter (\<lambda>f. \<not> endswith (lower (info_name f)) ''.pdf'') all_files))"
  proof -
    have "map original_name (map (plan_entry cname) (enumerate 1 fs)) = map info_name (map snd (enumerate 1 fs))" for fs
      unfolding map_map by (rule map_cong [OF refl]) (auto simp: plan_entry_def)
    then show ?thesis by (simp add: rename_plan_eq files_to_rename_def isp)
  qed
  have 6: "analyze_folder_from [plain_file i n]
          = \<lparr>st_total_files = 1, st_pdf_files = 0, st_other_files = 1, st_file_types = [[] \<mapsto> 1]\<rparr>
      \<and> fst (delete_pdfs_from M True [plain_file i n] w) = 1
      \<and> map fst (new_calls w (snd (delete_pdfs_from M False [plain_file i n] w))) = [Destroy i]
      \<and> rename_plan M cname dry_run [plain_file i n] w = []
      \<and> st_pdf_files (analyze_folder_from [plain_file i n]) < length (filter is_pdf [plain_file i n])"
    if n: "n \<in> {''.pdf'', ''.PDF''}" for n
  proof -
    from n have n': "n = ''.pdf'' \<or> n = ''.PDF''" by simp
    have p: "is_pdf (plain_file i n)" using n' is_pdf_dot_pdf by auto
    have a: "analyze_folder_from [plain_file i n]
          = \<lparr>st_total_files = 1, st_pdf_files = 0, st_other_files = 1, st_file_types = [[] \<mapsto> 1]\<rparr>"
      by (rule analyze_dot_pdf [OF n'])
    have b: "fst (delete_pdfs_from M True [plain_file i n] w) = 1"
      using p by (simp add: delete_pdfs_from_dry)
    have c: "map fst (new_calls w (snd (delete_pdfs_from M False [plain_file i n] w))) = [Destroy i]"
      using delete_pdfs_from_live [of w M "[plain_file i n]"] p by (simp add: plain_file_def)
    have d: "rename_plan M cname dry_run [plain_file i n] w = []"
      using p by (simp add: rename_plan_eq files_to_rename_def)
    have e: "st_pdf_files (analyze_folder_from [plain_file i n]) < length (filter is_pdf [plain_file i n])"
      using p by (simp add: a)
    from a b c d e show ?thesis by blast
  qed
  from 1 2 3 4 5 6 show ?thesis by blast
qed

theorem analyzer_deleter_mismatch_witness:
  "st_pdf_files (analyze_folder_from [plain_file ''9'' ''.PDF'']) = 0
   \<and> st_file_types (analyze_folder_from [plain_file ''9'' ''.PDF'']) [] = Some 1
   \<and> map fst (new_calls (start []) (snd (delete_pdfs_from (scripted [] [] True) False
        [plain_file ''9'' ''.PDF''] (start [])))) = [Destroy ''9'']
   \<and> rename_plan (scripted [] [] True) ''doc'' False [plain_file ''9'' ''.PDF''] (start []) = []"
  using analyzer_deleter_mismatch [of "[]" "scripted [] [] True" "start []" "''doc''" False "''9''"]
  by simp

subsection \<open>C3: a dry run plans what a live run does and touches nothing\<close>

lemma new_calls_self: "new_calls w w = []"
  by (simp add: new_calls_def)

text \<open>
  C3. On the same collected files, custom name and starting state, the dry run of the
  deleter counts exactly the files whose ids the live run passes to the remote \<open>destroy\<close>,
  in the same order, and the dry run of the renamer builds the same backup, entry for
  entry, as the live run, whose remote \<open>rename\<close> calls are those entries in order. Both
  dry runs return the state they were given: no call is issued, neither a remote one nor
  a write of a backup file.
\<close>

theorem dry_run_same_plan:
  "delete_pdfs_from M True all_files w = (length (filter is_pdf all_files), w)
   \<and> map fst (new_calls w (snd (delete_pdfs_from M False all_files w)))
       = map (\<lambda>f. Destroy (info_id f)) (filter is_pdf all_files)
   \<and> snd (snd (rename_files_from M cname True all_files w)) = w
   \<and> new_calls w (snd (snd (rename_files_from M cname True all_files w))) = []
   \<and> fst (snd (rename_files_from M cname True all_files w))
       = fst (snd (rename_files_from M cname False all_files w))
   \<and> rename_plan M cname True all_files w = rename_plan M cname False all_files w
   \<and> map fst (filter (\<lambda>x. \<not> is_write (fst x))
                 (new_calls w (snd (snd (rename_files_from M cname False all_files w)))))
       = map (\<lambda>e. Rename (file_id e) (new_name e)) (rename_plan M cname True all_files w)"
proof -
  have 1: "delete_pdfs_from M True all_files w = (length (filter is_pdf all_files), w)"
    by (rule delete_pdfs_from_dry)
  have 2: "map fst (new_calls w (snd (delete_pdfs_from M False all_files w)))
       = map (\<lambda>f. Destroy (info_id f)) (filter is_pdf all_files)"
    using delete_pdfs_from_live [of w M all_files] by simp
  have 3: "snd (snd (rename_files_from M cname True all_files w)) = w"
    using rename_files_from_dry [where M=M and cname=cname and all_files=all_files and w=w]
    by (metis snd_conv)
  have 4: "new_calls w (snd (snd (rename_files_from M cname True all_files w))) = []"
    by (simp add: 3 new_calls_self)
  have 5: "fst (snd (rename_files_from M cname True all_files w))
       = fst (snd (rename_files_from M cname False all_files w))"
    by (simp add: rename_files_from_backup)
  have 6: "rename_plan M cname True all_files w = rename_plan M cname False all_files w"
    by (simp add: rename_plan_eq)
  from rename_files_from_live [where M=M and cname=cname and all_files=all_files and w=w]
  obtain tr wr where
    tr: "map fst tr = map (\<lambda>e. Rename (file_id e) (new_name e))
                         (map (plan_entry cname) (enumerate 1 (files_to_rename all_files)))"
    and nc: "new_calls w (snd (snd (rename_files_from M cname False all_files w))) =
               tr @ (if 0 < fst (rename_files_from M cname False all_files w) then [wr] else [])"
            "is_write (fst wr)"
    by (auto simp: is_write_def)
  have nw: "\<forall>x \<in> set tr. \<not> is_write (fst x)"
  proof
    fix x assume "x \<in> set tr"
    then have "fst x \<in> set (map fst tr)" by (metis image_eqI set_map)
    then show "\<not> is_write (fst x)" unfolding tr by (auto simp: is_write_def)
  qed
  then have f: "filter (\<lambda>x. \<not> is_write (fst x)) tr = tr" by (simp add: filter_id_conv)
  have 7: "map fst (filter (\<lambda>x. \<not> is_write (fst x))
                 (new_calls w (snd (snd (rename_files_from M cname False all_files w)))))
       = map (\<lambda>e. Rename (file_id e) (new_name e)) (rename_plan M cname True all_files w)"
    unfolding nc(1) using f nc(2) tr by (simp add: rename_plan_eq)
  from 1 2 3 4 5 6 7 show ?thesis by blast
qed

theorem dry_run_same_plan_witness:
  "delete_pdfs_from (scripted [] [''3''] False) True
      [plain_file ''1'' ''b.txt'', plain_file ''2'' ''a.txt'', plain_file ''3'' ''x.pdf''] (start [])
     = (1, start [])
   \<and> snd (snd (rename_files_from (scripted [] [''3''] False) ''doc'' True
      [plain_file ''1'' ''b.txt'', plain_file ''2'' ''a.txt'', plain_file ''3'' ''x.pdf''] (start [])))
     = start []"
  using dry_run_same_plan [of "scripted [] [''3''] False"
      "[plain_file ''1'' ''b.txt'', plain_file ''2'' ''a.txt'', plain_file ''3'' ''x.pdf'']"
      "start []" "''doc''"]
  by (simp add: is_pdf_def plain_file_def endswith_def lower_def lower_char_def)

subsection \<open>C5: a failing item does not stop the batch\<close>





subsection \<open>C6: the backup and when it is written\<close>

lemma two_txt:
  "files_to_rename [plain_file ''1'' ''a.txt'', plain_file ''2'' ''b.txt'']
     = [plain_file ''1'' ''a.txt'', plain_file ''2'' ''b.txt'']"
  by (simp add: files_to_rename_def is_pdf_def endswith_def lower_def lower_char_def plain_file_def)

lemma two_txt_loop:
  "snd (rename_loop (scripted [] failing ok) cname False 1
          [plain_file ''1'' ''a.txt'', plain_file ''2'' ''b.txt''] [] 0 (start []))
     = ((if ''1'' \<in> set failing then 0 else 1) + (if ''2'' \<in> set failing then 0 else 1),
        \<lparr>env = [], trace = [(Rename ''1'' (cname @ ''_001.txt''), ''1'' \<notin> set failing),
                            (Rename ''2'' (cname @ ''_002.txt''), ''2'' \<notin> set failing)]\<rparr>)"
  by (simp add: scripted_def start_def plain_file_def Let_def format_03d_1 format_03d_2
        path_suffix_def path_name_def)

text \<open>
  C6. Whenever there is a file to rename, the pass builds the backup with the time stamp
  read at its start, the custom name and one entry \<open>{file_id, original_name, new_name}\<close>
  per file the renamer works on, in its order, in dry-run and in live mode alike and
  whichever remote calls raise. The write of the backup to \<open>backup_<time>.json\<close>, the time
  read after the loop, is issued exactly when the pass is live and has renamed at least
  one file, and then once; a dry run and a live pass without a success issue no write.
\<close>

theorem backup_built_and_written:
  "fst (snd (rename_files_from M cname dry_run all_files w))
     = (if files_to_rename all_files = [] then None
        else Some \<lparr>timestamp = now_isoformat M (env w), custom_name = cname,
                   files = rename_plan M cname dry_run all_files w\<rparr>)
   \<and> map (\<lambda>e. (file_id e, original_name e)) (rename_plan M cname dry_run all_files w)
     = map (\<lambda>f. (info_id f, info_name f)) (files_to_rename all_files)
   \<and> map fst (filter (\<lambda>x. is_write (fst x))
                 (new_calls w (snd (snd (rename_files_from M cname dry_run all_files w)))))
     = (if \<not> dry_run \<and> 0 < fst (rename_files_from M cname dry_run all_files w)
        then [WriteBackup
                (''backup_''
                   @ now_strftime M (env (snd (snd (rename_loop M cname False 1
                                                     (files_to_rename all_files) [] 0 w))))
                   @ ''.json'')
                \<lparr>timestamp = now_isoformat M (env w), custom_name = cname,
                 files = rename_plan M cname dry_run all_files w\<rparr>]
        else [])"
proof -
  have 1: "fst (snd (rename_files_from M cname dry_run all_files w))
     = (if files_to_rename all_files = [] then None
        else Some \<lparr>timestamp = now_isoformat M (env w), custom_name = cname,
                   files = rename_plan M cname dry_run all_files w\<rparr>)"
    by (simp add: rename_files_from_backup rename_plan_eq)
  have 2: "map (\<lambda>e. (file_id e, original_name e)) (rename_plan M cname dry_run all_files w)
     = map (\<lambda>f. (info_id f, info_name f)) (files_to_rename all_files)"
  proof -
    have "map (\<lambda>e. (file_id e, original_name e)) (map (plan_entry cname) (enumerate 1 fs))
            = map (\<lambda>f. (info_id f, info_name f)) (map snd (enumerate 1 fs))" for fs
      unfolding map_map by (rule map_cong [OF refl]) (auto simp: plan_entry_def)
    then show ?thesis by (simp add: rename_plan_eq)
  qed
  have 3: "map fst (filter (\<lambda>x. is_write (fst x))
                 (new_calls w (snd (snd (rename_files_from M cname dry_run all_files w)))))
     = (if \<not> dry_run \<and> 0 < fst (rename_files_from M cname dry_run all_files w)
        then [WriteBackup
                (''backup_''
                   @ now_strftime M (env (snd (snd (rename_loop M cname False 1
                                                     (files_to_rename all_files) [] 0 w))))
                   @ ''.json'')
                \<lparr>timestamp = now_isoformat M (env w), custom_name = cname,
                 files = rename_plan M cname dry_run all_files w\<rparr>]
        else [])"
  proof (cases dry_run)
    case True
    have "snd (snd (rename_files_from M cname True all_files w)) = w"
      using rename_files_from_dry [where M=M and cname=cname and all_files=all_files and w=w]
      by (metis snd_conv)
    then show ?thesis using True by (simp add: new_calls_def)
  next
    case False
    from rename_files_from_live [where M=M and cname=cname and all_files=all_files and w=w]
    obtain tr where
      tr: "map fst tr = map (\<lambda>e. Rename (file_id e) (new_name e))
                           (map (plan_entry cname) (enumerate 1 (files_to_rename all_files)))"
      and nc: "new_calls w (snd (snd (rename_files_from M cname False all_files w))) =
               tr @ (if 0 < fst (rename_files_from M cname False all_files w)
                     then [(WriteBackup (''backup_'' @ now_strftime M (env (snd (snd
                                (rename_loop M cname False 1 (files_to_rename all_files) [] 0 w)))) @ ''.json'')
                              \<lparr>timestamp = now_isoformat M (env w), custom_name = cname,
                               files = map (plan_entry cname) (enumerate 1 (files_to_rename all_files))\<rparr>,
                            fst (write_backup M (''backup_'' @ now_strftime M (env (snd (snd
                                (rename_loop M cname False 1 (files_to_rename all_files) [] 0 w)))) @ ''.json'')
                              \<lparr>timestamp = now_isoformat M (env w), custom_name = cname,
                               files = map (plan_entry cname) (enumerate 1 (files_to_rename all_files))\<rparr>
                              (env (snd (snd (rename_loop M cname False 1 (files_to_rename all_files) [] 0 w))))))]
                     else [])"
      by blast
    have "\<forall>x \<in> set tr. \<not> is_write (fst x)"
    proof
      fix x assume "x \<in> set tr"
      then have "fst x \<in> set (map fst tr)" by (metis image_eqI set_map)
      then show "\<not> is_write (fst x)" unfolding tr by (auto simp: is_write_def)
    qed
    then have f: "filter (\<lambda>x. is_write (fst x)) tr = []" by (simp add: filter_empty_conv)
    have iw: "is_write (WriteBackup a b)" for a b by (simp add: is_write_def)
    from False have dr: "dry_run = False" by simp
    show ?thesis unfolding dr nc
      by (simp add: f iw rename_plan_eq)
  qed
  from 1 2 3 show ?thesis by blast
qed

lemma rename_files_from_count:
  "fst (rename_files_from M cname dry_run all_files w)
     = (if files_to_rename all_files = [] then 0
        else fst (snd (rename_loop M cname dry_run 1 (files_to_rename all_files) [] 0 w)))"
  by (auto simp: rename_files_from_def files_to_rename_Nil_iff Let_def split: prod.splits)

lemma count_of_two:
  "fst (rename_files_from (scripted [] failing ok) cname False
          [plain_file ''1'' ''a.txt'', plain_file ''2'' ''b.txt''] (start []))
     = (if ''1'' \<in> set failing then 0 else 1) + (if ''2'' \<in> set failing then 0 else 1)"
  unfolding rename_files_from_count two_txt two_txt_loop by simp

theorem backup_built_and_written_witness:
  "map fst (filter (\<lambda>x. is_write (fst x))
       (new_calls (start []) (snd (snd (rename_files_from (scripted [] [''1''] True) ''doc'' False
          [plain_file ''1'' ''a.txt'', plain_file ''2'' ''b.txt''] (start []))))))
     = [WriteBackup ''backup_20240101_000000.json''
          \<lparr>timestamp = ''2024-01-01T00:00:00'', custom_name = ''doc'',
           files = rename_plan (scripted [] [''1''] True) ''doc'' False
                     [plain_file ''1'' ''a.txt'', plain_file ''2'' ''b.txt''] (start [])\<rparr>]
   \<and> map (\<lambda>e. (file_id e, original_name e))
        (rename_plan (scripted [] [''1''] True) ''doc'' False
           [plain_file ''1'' ''a.txt'', plain_file ''2'' ''b.txt''] (start []))
     = [(''1'', ''a.txt''), (''2'', ''b.txt'')]
   \<and> filter (\<lambda>x. is_write (fst x))
       (new_calls (start []) (snd (snd (rename_files_from (scripted [] [''1'', ''2''] True) ''doc'' False
          [plain_file ''1'' ''a.txt'', plain_file ''2'' ''b.txt''] (start []))))) = []
   \<and> filter (\<lambda>x. is_write (fst x))
       (new_calls (start []) (snd (snd (rename_files_from (scripted [] [] True) ''doc'' True
          [plain_file ''1'' ''a.txt'', plain_file ''2'' ''b.txt''] (start []))))) = []"
proof -
  let ?all = "[plain_file ''1'' ''a.txt'', plain_file ''2'' ''b.txt'']"
  note a = backup_built_and_written [of "scripted [] [''1''] True" "''doc''" False ?all "start []"]
  note b = backup_built_and_written [of "scripted [] [''1'', ''2''] True" "''doc''" False ?all "start []"]
  note c = backup_built_and_written [of "scripted [] [] True" "''doc''" True ?all "start []"]
  have 1: "map fst (filter (\<lambda>x. is_write (fst x))
       (new_calls (start []) (snd (snd (rename_files_from (scripted [] [''1''] True) ''doc'' False
          ?all (start []))))))
     = [WriteBackup ''backup_20240101_000000.json''
          \<lparr>timestamp = ''2024-01-01T00:00:00'', custom_name = ''doc'',
           files = rename_plan (scripted [] [''1''] True) ''doc'' False ?all (start [])\<rparr>]"
    using a by (simp add: count_of_two) (simp add: scripted_def)
  have 2: "map (\<lambda>e. (file_id e, original_name e))
        (rename_plan (scripted [] [''1''] True) ''doc'' False ?all (start []))
     = [(''1'', ''a.txt''), (''2'', ''b.txt'')]"
    using a unfolding two_txt by (simp add: plain_file_def)
  have 3: "filter (\<lambda>x. is_write (fst x))
       (new_calls (start []) (snd (snd (rename_files_from (scripted [] [''1'', ''2''] True) ''doc'' False
          ?all (start []))))) = []"
    using b by (simp add: count_of_two)
  have 4: "filter (\<lambda>x. is_write (fst x))
       (new_calls (start []) (snd (snd (rename_files_from (scripted [] [] True) ''doc'' True
          ?all (start []))))) = []"
    using c by simp
  from 1 2 3 4 show ?thesis by blast
qed

subsection \<open>The walk returns on acyclic listings\<close>

lemma finite_parent_rel: "finite (parent_rel listing)"
proof -
  have "parent_rel listing = (\<lambda>(i, d). (i, node_p d)) ` set listing"
    by (auto simp: parent_rel_def image_iff split: prod.splits)
  then show ?thesis by simp
qed

lemma parent_relI: "(i, d) \<in> set listing \<Longrightarrow> node_p d = q \<Longrightarrow> (i, q) \<in> parent_rel listing"
  by (auto simp: parent_rel_def)

lemma traverse_skip:
  "node_p d \<noteq> pid \<or> (node_t d \<noteq> 0 \<and> node_t d \<noteq> 1) \<Longrightarrow>
     traverse depth listing pid ((i, d) # rest) acc = traverse depth listing pid rest acc"
  by auto

lemma traverse_file:
  "node_p d = pid \<Longrightarrow> node_t d = 0 \<Longrightarrow>
     traverse depth listing pid ((i, d) # rest) acc =
       (case file_name d of
          Inl err \<Rightarrow> Some (Inl err)
        | Inr name \<Rightarrow> traverse depth listing pid rest
                        (acc @ [\<lparr>info_id = i, info_name = name, info_data = d\<rparr>]))"
  by simp

lemma traverse_folder:
  "node_p d = pid \<Longrightarrow> node_t d = 1 \<Longrightarrow>
     traverse (Suc depth) listing pid ((i, d) # rest) acc =
       (case traverse depth listing i listing acc of
          Some (Inr acc') \<Rightarrow> traverse (Suc depth) listing pid rest acc'
        | r \<Rightarrow> r)"
  by simp

lemma traverse_folder_0:
  "node_p d = pid \<Longrightarrow> node_t d = 1 \<Longrightarrow> traverse 0 listing pid ((i, d) # rest) acc = None"
  by simp

lemma traverse_loop_returns:
  assumes "\<And>f fd. (f, fd) \<in> set rest \<Longrightarrow> node_p fd = pid \<Longrightarrow> node_t fd = 1 \<Longrightarrow>
             \<exists>d. \<forall>d' \<ge> d. \<forall>acc. traverse d' listing f listing acc \<noteq> None"
  shows "\<exists>d. \<forall>d' \<ge> d. \<forall>acc. traverse d' listing pid rest acc \<noteq> None"
  using assms
proof (induction rest)
  case Nil
  show ?case by simp
next
  case (Cons x rest)
  obtain i nd where x: "x = (i, nd)" by (cases x)
  from Cons.IH Cons.prems obtain dr where
    dr: "\<forall>d' \<ge> dr. \<forall>acc. traverse d' listing pid rest acc \<noteq> None"
    by (metis list.set_intros(2))
  consider (other) "node_p nd \<noteq> pid \<or> (node_t nd \<noteq> 0 \<and> node_t nd \<noteq> 1)"
    | (a_file) "node_p nd = pid" "node_t nd = 0"
    | (a_folder) "node_p nd = pid" "node_t nd = 1"
    by blast
  then show ?case
  proof cases
    case other
    then show ?thesis using dr unfolding x by (metis traverse_skip)
  next
    case a_file
    have "traverse d' listing pid ((i, nd) # rest) acc \<noteq> None" if "d' \<ge> dr" for d' acc
      using dr that unfolding traverse_file [OF a_file] by (cases "file_name nd") auto
    then show ?thesis unfolding x by blast
  next
    case a_folder
    from Cons.prems [of i nd] a_folder obtain df where
      df: "\<forall>d' \<ge> df. \<forall>acc. traverse d' listing i listing acc \<noteq> None"
      unfolding x by auto
    have "traverse d' listing pid ((i, nd) # rest) acc \<noteq> None" if d': "d' \<ge> max (Suc df) dr" for d' acc
    proof -
      from d' obtain e where e: "d' = Suc e" "e \<ge> df" by (cases d') auto
      from df e(2) obtain r where r: "traverse e listing i listing acc = Some r" by blast
      show ?thesis
      proof (cases r)
        case (Inl err)
        then show ?thesis unfolding e(1) traverse_folder [OF a_folder] r by simp
      next
        case (Inr acc')
        have "traverse d' listing pid rest acc' \<noteq> None" using dr d' by simp
        then show ?thesis unfolding e(1) traverse_folder [OF a_folder] r Inr by simp
      qed
    qed
    then show ?thesis unfolding x by blast
  qed
qed

lemma traverse_returns:
  assumes "acyclic (parent_rel listing)"
  shows "\<exists>d. \<forall>d' \<ge> d. \<forall>acc. traverse d' listing pid listing acc \<noteq> None"
proof -
  have "wf (parent_rel listing)"
    using finite_parent_rel assms by (rule finite_acyclic_wf)
  then show ?thesis
  proof (induction pid rule: wf_induct_rule)
    case (less pid)
    show ?case
    proof (rule traverse_loop_returns)
      fix f fd assume "(f, fd) \<in> set listing" "node_p fd = pid" "node_t fd = 1"
      then have "(f, pid) \<in> parent_rel listing" by (simp add: parent_relI)
      then show "\<exists>d. \<forall>d' \<ge> d. \<forall>acc. traverse d' listing f listing acc \<noteq> None"
        by (rule less.IH)
    qed
  qed
qed

lemma two_cycle_never_returns:
  "traverse d [(''A'', folder_node ''B'' ''a''), (''B'', folder_node ''A'' ''b'')] ''A''
      [(''A'', folder_node ''B'' ''a''), (''B'', folder_node ''A'' ''b'')] acc = None
   \<and> traverse d [(''A'', folder_node ''B'' ''a''), (''B'', folder_node ''A'' ''b'')] ''B''
      [(''A'', folder_node ''B'' ''a''), (''B'', folder_node ''A'' ''b'')] acc = None"
proof (induction d arbitrary: acc)
  case 0
  show ?case by (simp add: folder_node_def)
next
  case (Suc d)
  then show ?case by (simp add: folder_node_def)
qed

subsection \<open>C8: termination of the walk\<close>

text \<open>
  C8. When the parent relation of the listing is acyclic, the walk from any root id
  returns (normally or by raising): some number of nested calls suffices, and so does
  every larger one. The walk has no cycle detection: on the listing of two folders that
  are each other's parent, the walk from either of them never returns, whatever number of
  nested calls is available.
\<close>

theorem traverse_terminates:
  "(acyclic (parent_rel listing) \<longrightarrow>
      (\<exists>d. \<forall>d' \<ge> d. get_all_files_recursive d' listing folder_id \<noteq> None))
   \<and> \<not> acyclic (parent_rel [(''A'', folder_node ''B'' ''a''), (''B'', folder_node ''A'' ''b'')])
   \<and> (\<forall>d. get_all_files_recursive d
              [(''A'', folder_node ''B'' ''a''), (''B'', folder_node ''A'' ''b'')] ''A'' = None)"
proof -
  have 1: "acyclic (parent_rel listing) \<longrightarrow>
      (\<exists>d. \<forall>d' \<ge> d. get_all_files_recursive d' listing folder_id \<noteq> None)"
    using traverse_returns [of listing folder_id] unfolding get_all_files_recursive_def by blast
  have "(''A'', ''B'') \<in> parent_rel [(''A'', folder_node ''B'' ''a''), (''B'', folder_node ''A'' ''b'')]"
       "(''B'', ''A'') \<in> parent_rel [(''A'', folder_node ''B'' ''a''), (''B'', folder_node ''A'' ''b'')]"
    by (auto simp: parent_rel_def folder_node_def)
  then have "(''A'', ''A'') \<in> (parent_rel [(''A'', folder_node ''B'' ''a''), (''B'', folder_node ''A'' ''b'')])\<^sup>+"
    by (rule trancl_into_trancl2 [OF _ r_into_trancl])
  then have 2: "\<not> acyclic (parent_rel [(''A'', folder_node ''B'' ''a''), (''B'', folder_node ''A'' ''b'')])"
    by (auto simp: acyclic_def)
  have 3: "\<forall>d. get_all_files_recursive d
              [(''A'', folder_node ''B'' ''a''), (''B'', folder_node ''A'' ''b'')] ''A'' = None"
    using two_cycle_never_returns by (simp add: get_all_files_recursive_def)
  from 1 2 3 show ?thesis by blast
qed

theorem traverse_terminates_witness:
  "acyclic (parent_rel [(''S'', folder_node ''F'' ''sub''), (''a'', file_node ''S'' ''a.txt'')])
   \<and> (\<exists>d. get_all_files_recursive d
          [(''S'', folder_node ''F'' ''sub''), (''a'', file_node ''S'' ''a.txt'')] ''F'' \<noteq> None)"
proof -
  let ?L = "[(''S'', folder_node ''F'' ''sub''), (''a'', file_node ''S'' ''a.txt'')]"
  let ?f = "\<lambda>s. if s = ''a'' then 2 else if s = ''S'' then 1 else (0::nat)"
  have "?f b < ?f a" if "(a, b) \<in> parent_rel ?L" for a b
    using that by (auto simp: parent_rel_def folder_node_def file_node_def)
  then have ac: "acyclic (parent_rel ?L)" by (rule acyclicI_order)
  with traverse_terminates [of ?L "''F''"] show ?thesis by blast
qed

subsection \<open>The folder lookup\<close>

lemma startswith_iff: "startswith s sub \<longleftrightarrow> (\<exists>post. s = sub @ post)"
  by (induction s sub rule: startswith.induct) auto

lemma contains_iff: "contains s sub \<longleftrightarrow> (\<exists>pre post. s = pre @ sub @ post)"
proof (induction s)
  case Nil
  show ?case by auto
next
  case (Cons x xs)
  show ?case
  proof
    assume "contains (x # xs) sub"
    then consider "startswith (x # xs) sub" | "contains xs sub" by auto
    then show "\<exists>pre post. x # xs = pre @ sub @ post"
    proof cases
      case 1
      then obtain post where "x # xs = [] @ sub @ post" by (auto simp: startswith_iff)
      then show ?thesis by blast
    next
      case 2
      with Cons.IH obtain pre post where "xs = pre @ sub @ post" by blast
      then have "x # xs = (x # pre) @ sub @ post" by simp
      then show ?thesis by blast
    qed
  next
    assume "\<exists>pre post. x # xs = pre @ sub @ post"
    then obtain pre post where e: "x # xs = pre @ sub @ post" by blast
    show "contains (x # xs) sub"
    proof (cases pre)
      case Nil
      with e have "startswith (x # xs) sub" by (auto simp: startswith_iff)
      then show ?thesis by simp
    next
      case (Cons y ys)
      with e have "xs = ys @ sub @ post" by simp
      with Cons.IH have "contains xs sub" by blast
      then show ?thesis by simp
    qed
  qed
qed

lemma usable_attrs_Cons:
  "usable_attrs (x # rest) \<longleftrightarrow> usable_attrs [x] \<and> usable_attrs rest"
  by (cases x) (simp add: usable_attrs_def)

lemma find_exact_eq:
  "usable_attrs rest \<Longrightarrow> find_exact rest q = Inr (find (exact_match q) rest)"
proof (induction rest)
  case Nil
  show ?case by simp
next
  case (Cons x rest)
  obtain i nd where x: "x = (i, nd)" by (cases x)
  from Cons.prems have a: "usable_attrs [(i, nd)]" and r: "usable_attrs rest"
    using usable_attrs_Cons [of x rest] by (simp_all add: x)
  show ?case
    using a Cons.IH [OF r] unfolding x
    by (auto simp: usable_attrs_def exact_match_def folder_name_def split: option.splits attrs.splits)
qed

lemma find_substring_eq:
  "usable_attrs rest \<Longrightarrow>
     find_substring M rest q w
       = (Inr (fst (confirm_in_turn M (filter (substring_match q) rest) w)),
          snd (confirm_in_turn M (filter (substring_match q) rest) w))"
proof (induction rest arbitrary: w)
  case Nil
  show ?case by simp
next
  case (Cons x rest)
  obtain i nd where x: "x = (i, nd)" by (cases x)
  from Cons.prems have a: "usable_attrs [(i, nd)]" and r: "usable_attrs rest"
    using usable_attrs_Cons [of x rest] by (simp_all add: x)
  show ?case
  proof (cases "substring_match q (i, nd)")
    case False
    then have "find_substring M ((i, nd) # rest) q w = find_substring M rest q w"
      using a by (auto simp: usable_attrs_def substring_match_def folder_name_def
                     split: option.splits attrs.splits)
    then show ?thesis using False Cons.IH [OF r] unfolding x by simp
  next
    case True
    then obtain n where n: "node_a nd = Some (Attrs (Some n))" "contains n q" "node_t nd = 1"
      by (auto simp: substring_match_def folder_name_def split: option.splits attrs.splits)
    obtain confirm e where inp: "input M n (env w) = (confirm, e)" by (cases "input M n (env w)")
    let ?w = "w\<lparr>env := e, trace := trace w @ [(Input n, True)]\<rparr>"
    have c: "find_substring M ((i, nd) # rest) q w
               = (if lower confirm = ''y'' then (Inr (Some (i, nd)), ?w) else find_substring M rest q ?w)"
      using n inp by simp
    have s: "confirm_in_turn M ((i, nd) # filter (substring_match q) rest) w
               = (if lower confirm = ''y'' then (Some (i, nd), ?w)
                  else confirm_in_turn M (filter (substring_match q) rest) ?w)"
      using n(1) inp by (simp add: folder_name_def)
    show ?thesis unfolding x using True c s Cons.IH [OF r, of ?w] by simp
  qed
qed

lemma confirm_all_declined:
  assumes "\<And>p e. lower (fst (input M p e)) \<noteq> ''y''"
  shows "fst (confirm_in_turn M cands w) = None"
proof (induction cands arbitrary: w)
  case Nil
  show ?case by simp
next
  case (Cons c cands)
  show ?case using assms Cons.IH
    by (simp add: Let_def split: prod.splits) (metis fst_conv)
qed

lemma find_folder_eq:
  assumes "usable_attrs (get_files M (env w))"
  shows "find_folder M q w =
           (case find (exact_match q) (get_files M (env w)) of
              Some found \<Rightarrow> (Some found, w)
            | None \<Rightarrow> confirm_in_turn M (filter (substring_match q) (get_files M (env w))) w)"
  unfolding find_folder_def Let_def find_exact_eq [OF assms] find_substring_eq [OF assms]
  by (simp split: option.splits)

lemma find_folder_usable:
  assumes "usable_attrs (get_files M (env w))"
  shows "find_folder M q w =
           (case find (exact_match q) (get_files M (env w)) of
              Some found \<Rightarrow> (Some found, w)
            | None \<Rightarrow> confirm_in_turn M (filter (substring_match q) (get_files M (env w))) w)"
  by (rule find_folder_eq [OF assms])

subsection \<open>C7: what the folder lookup returns\<close>

text \<open>
  C7 says that the lookup returns the first folder, in listing order, whose name is
  exactly the query. The code does so when the attributes of every node can be read
  (\<open>find_folder_usable\<close>), and line 176 is written to pass over nodes without a usable
  name. It reads \<open>file_data['a']\<close> without asking whether the key is there, though, which
  the walker does ask at line 208. On the listing of a file without the key \<open>a\<close> followed
  by the folder \<open>Docs\<close>, both under \<open>r\<close>, the lookup of \<open>Docs\<close> raises \<open>KeyError\<close> on the
  first node and its handler returns nothing; the walker, on the same listing, records
  that file as \<open>unknown\<close>. The lookup fails in the same way, with \<open>TypeError\<close>, when the
  first node carries a text with the letter \<open>n\<close> under \<open>a\<close>.
\<close>

theorem find_folder_misses_exact_match:
  "find (exact_match ''Docs'')
        [(''x'', \<lparr>node_p = ''r'', node_t = 0, node_a = None\<rparr>), (''F'', folder_node ''r'' ''Docs'')]
     = Some (''F'', folder_node ''r'' ''Docs'')
   \<and> find_exact [(''x'', \<lparr>node_p = ''r'', node_t = 0, node_a = None\<rparr>),
                  (''F'', folder_node ''r'' ''Docs'')] ''Docs'' = Inl KeyError
   \<and> find_folder (scripted [(''x'', \<lparr>node_p = ''r'', node_t = 0, node_a = None\<rparr>),
                            (''F'', folder_node ''r'' ''Docs'')] [] True) ''Docs'' (start [])
     = (None, start [])
   \<and> get_all_files_recursive 1 [(''x'', \<lparr>node_p = ''r'', node_t = 0, node_a = None\<rparr>),
                                 (''F'', folder_node ''r'' ''Docs'')] ''r''
     = Some (Inr [\<lparr>info_id = ''x'', info_name = ''unknown'',
                    info_data = \<lparr>node_p = ''r'', node_t = 0, node_a = None\<rparr>\<rparr>])
   \<and> find_exact [(''x'', \<lparr>node_p = ''r'', node_t = 0, node_a = Some (Raw ''enc'')\<rparr>),
                  (''F'', folder_node ''r'' ''Docs'')] ''Docs'' = Inl TypeError
   \<and> find_folder (scripted [(''x'', \<lparr>node_p = ''r'', node_t = 0, node_a = Some (Raw ''enc'')\<rparr>),
                            (''F'', folder_node ''r'' ''Docs'')] [] True) ''Docs'' (start [])
     = (None, start [])"
  by (simp add: exact_match_def folder_name_def folder_node_def find_folder_def scripted_def
        get_all_files_recursive_def file_name_def)

subsection \<open>The nodes below a root\<close>

lemma descends_trans:
  assumes "(a, da) \<in> set listing" "node_t da = 1" "descends listing r a" "descends listing a j"
  shows "descends listing r j"
  using assms(4)
proof (induction rule: descends.induct)
  case (child i d)
  then show ?case using assms(1-3) descends.chain [of i d listing da r] by simp
next
  case (chain i d dj)
  then show ?case using descends.chain by blast
qed

lemma descends_down:
  assumes "(f, fd) \<in> set listing" "node_p fd = pid" "node_t fd = 1" "descends listing f i"
  shows "descends listing pid i"
  using descends_trans [OF assms(1) assms(3) _ assms(4)] assms(1,2) descends.child by blast

lemma descends_cases:
  assumes "distinct (map fst listing)" "descends listing pid i"
  shows "(\<exists>d. (i, d) \<in> set listing \<and> node_p d = pid)
         \<or> (\<exists>f fd. (f, fd) \<in> set listing \<and> node_p fd = pid \<and> node_t fd = 1 \<and> descends listing f i)"
  using assms(2)
proof (induction rule: descends.induct)
  case (child i d)
  then show ?case by blast
next
  case (chain i d dj)
  from chain.IH show ?case
  proof
    assume "\<exists>d'. (node_p d, d') \<in> set listing \<and> node_p d' = pid"
    then obtain d' where d': "(node_p d, d') \<in> set listing" "node_p d' = pid" by blast
    with chain.hyps(2) assms(1) have "d' = dj" by (meson eq_key_imp_eq_value)
    with d' chain.hyps have "(node_p d, dj) \<in> set listing \<and> node_p dj = pid \<and> node_t dj = 1
        \<and> descends listing (node_p d) i"
      using descends.child by blast
    then show ?thesis by blast
  next
    assume "\<exists>f fd. (f, fd) \<in> set listing \<and> node_p fd = pid \<and> node_t fd = 1
              \<and> descends listing f (node_p d)"
    then obtain f fd where f: "(f, fd) \<in> set listing" "node_p fd = pid" "node_t fd = 1"
        "descends listing f (node_p d)" by blast
    have "descends listing f i" using descends.chain [OF chain.hyps(1,2,3) f(4)] .
    with f show ?thesis by blast
  qed
qed

lemma descends_set_cong:
  assumes "set listing' = set listing" "descends listing' r i"
  shows "descends listing r i"
  using assms(2)
proof (induction rule: descends.induct)
  case (child i d)
  then show ?case using assms(1) descends.child by blast
next
  case (chain i d dj)
  then show ?case using assms(1) descends.chain by blast
qed

lemma descends_reaches: "descends listing r i \<Longrightarrow> reaches listing r i"
  by (induction rule: descends.induct) (auto intro: reaches.intros)

lemma reaches_descends:
  assumes "only_folders_have_children listing" "reaches listing r i"
  shows "descends listing r i"
  using assms(2)
proof (induction rule: reaches.induct)
  case (child i d)
  then show ?case by (rule descends.child)
next
  case (chain i d)
  from chain.IH obtain dj where dj: "(node_p d, dj) \<in> set listing"
    by (cases rule: descends.cases) auto
  with assms(1) chain.hyps(1) have "node_t dj = 1"
    by (auto simp: only_folders_have_children_def)
  with chain dj show ?case using descends.chain by blast
qed

lemma single_valued_subtree_rel:
  assumes "distinct (map fst listing)"
  shows "single_valued (subtree_rel listing root)"
  unfolding single_valued_def subtree_rel_def
  using assms by (auto dest: eq_key_imp_eq_value)

lemma finite_subtree_rel: "finite (subtree_rel listing root)"
proof -
  have "subtree_rel listing root \<subseteq> (\<lambda>(i, d). (i, node_p d)) ` set listing"
    by (auto simp: subtree_rel_def image_iff split: prod.splits)
  then show ?thesis by (rule finite_subset) simp
qed

lemma subtree_rel_subset: "subtree_rel listing root \<subseteq> parent_rel listing"
  by (auto simp: subtree_rel_def parent_rel_def)

lemma acyclic_subtree_rel: "acyclic (parent_rel listing) \<Longrightarrow> acyclic (subtree_rel listing root)"
  by (metis acyclic_subset subtree_rel_subset)

lemma sibling_disjoint:
  assumes sv: "single_valued r" and ac: "acyclic r"
    and a: "(a, p) \<in> r" and b: "(b, p) \<in> r" and ne: "a \<noteq> b"
    and ia: "(i, a) \<in> r\<^sup>*" and ib: "(i, b) \<in> r\<^sup>*"
  shows False
proof -
  have one: False if "(x, y) \<in> r\<^sup>*" "(x, p) \<in> r" "(y, p) \<in> r" "x \<noteq> y" for x y
  proof -
    from that(1,4) have "(x, y) \<in> r\<^sup>+" by (meson rtranclD)
    then obtain z where z: "(x, z) \<in> r" "(z, y) \<in> r\<^sup>*" by (meson tranclD)
    with sv that(2) have "z = p" by (meson single_valuedD)
    with z(2) that(3) have "(p, p) \<in> r\<^sup>+" by (meson rtrancl_into_trancl1)
    with ac show False by (simp add: acyclic_def)
  qed
  from single_valued_confluent [OF sv ia ib] show False
    using one [of a b] one [of b a] a b ne by blast
qed

lemma walked_child:
  assumes "walked listing root pid" "(i, d) \<in> set listing" "node_p d = pid"
  shows "descends listing root i"
  using assms unfolding walked_def
  by (metis descends.child descends.chain)

lemma walked_child_edge:
  assumes "walked listing root pid" "(i, d) \<in> set listing" "node_p d = pid"
  shows "(i, pid) \<in> subtree_rel listing root"
  using walked_child [OF assms] assms(2,3) by (auto simp: subtree_rel_def)

lemma walked_folder:
  assumes "walked listing root pid" "(f, fd) \<in> set listing" "node_p fd = pid" "node_t fd = 1"
  shows "walked listing root f"
  using walked_child [OF assms(1-3)] assms(2,4) by (auto simp: walked_def)

lemma below_walked:
  assumes "walked listing root a" "descends listing a j"
  shows "descends listing root j"
  using assms unfolding walked_def by (metis descends_trans)

lemma descends_subtree_trancl:
  assumes "walked listing root a" "descends listing a i"
  shows "(i, a) \<in> (subtree_rel listing root)\<^sup>+"
  using assms(2)
proof (induction rule: descends.induct)
  case (child i d)
  have "descends listing root i"
    using below_walked [OF assms(1)] descends.child [OF child] by blast
  with child show ?case by (auto simp: subtree_rel_def)
next
  case (chain i d dj)
  have "descends listing a i" using descends.chain [OF chain.hyps] .
  then have "descends listing root i" by (rule below_walked [OF assms(1)])
  with chain.hyps(1) have "(i, node_p d) \<in> subtree_rel listing root"
    by (auto simp: subtree_rel_def)
  with chain.IH show ?case by (meson trancl_into_trancl2)
qed

lemma contrib_below:
  assumes w: "walked listing root pid" and x: "x \<in> set listing" and y: "y \<in> contrib listing pid x"
  shows "(fst x, pid) \<in> subtree_rel listing root"
    and "(fst y, fst x) \<in> (subtree_rel listing root)\<^sup>*"
    and "y \<in> set listing" and "node_t (snd y) = 0"
proof -
  from y have p: "node_p (snd x) = pid" by (auto simp: contrib_def split: if_splits)
  obtain i d where xd: "x = (i, d)" by (cases x)
  show "(fst x, pid) \<in> subtree_rel listing root"
    using walked_child_edge [OF w, of i d] x p xd by simp
  from y consider "node_t (snd x) = 0" "y = x"
    | "node_t (snd x) = 1" "y \<in> file_descendants listing (fst x)"
    by (auto simp: contrib_def split: if_splits)
  then show "(fst y, fst x) \<in> (subtree_rel listing root)\<^sup>*"
  proof cases
    case 1
    then show ?thesis by simp
  next
    case 2
    have wf: "walked listing root (fst x)"
      using walked_folder [OF w, of i d] x p 2(1) xd by simp
    from 2(2) have "descends listing (fst x) (fst y)" by (simp add: file_descendants_def)
    from descends_subtree_trancl [OF wf this] show ?thesis by simp
  qed
  from y x show "y \<in> set listing" "node_t (snd y) = 0"
    by (auto simp: contrib_def file_descendants_def split: if_splits)
qed

lemma contrib_disjoint:
  assumes dk: "distinct (map fst listing)" and ac: "acyclic (subtree_rel listing root)"
    and w: "walked listing root pid"
    and x: "x \<in> set listing" and x': "x' \<in> set listing" and ne: "fst x \<noteq> fst x'"
  shows "fst ` contrib listing pid x \<inter> fst ` contrib listing pid x' = {}"
proof (rule ccontr)
  assume "fst ` contrib listing pid x \<inter> fst ` contrib listing pid x' \<noteq> {}"
  then obtain y y' where y: "y \<in> contrib listing pid x" "y' \<in> contrib listing pid x'" "fst y = fst y'"
    by auto
  note a = contrib_below [OF w x y(1)]
  note b = contrib_below [OF w x' y(2)]
  from sibling_disjoint [OF single_valued_subtree_rel [OF dk] ac a(1) b(1) ne a(2)] b(2) y(3)
  show False by simp
qed

lemma descendants_split:
  assumes dk: "distinct (map fst listing)"
  shows "file_descendants listing pid = (\<Union>x \<in> set listing. contrib listing pid x)"
proof (intro equalityI subsetI)
  fix y assume y: "y \<in> file_descendants listing pid"
  obtain i nd where yd: "y = (i, nd)" by (cases y)
  from y have yl: "(i, nd) \<in> set listing" and t: "node_t nd = 0" and de: "descends listing pid i"
    by (simp_all add: file_descendants_def yd)
  from descends_cases [OF dk de] show "y \<in> (\<Union>x \<in> set listing. contrib listing pid x)"
  proof
    assume "\<exists>d. (i, d) \<in> set listing \<and> node_p d = pid"
    then obtain d where d: "(i, d) \<in> set listing" "node_p d = pid" by blast
    with yl dk have "d = nd" by (meson eq_key_imp_eq_value)
    with d t have "y \<in> contrib listing pid y" by (simp add: contrib_def yd)
    with yl show ?thesis unfolding yd by blast
  next
    assume "\<exists>f fd. (f, fd) \<in> set listing \<and> node_p fd = pid \<and> node_t fd = 1 \<and> descends listing f i"
    then obtain f fd where f: "(f, fd) \<in> set listing" "node_p fd = pid" "node_t fd = 1"
        "descends listing f i" by blast
    from f(4) yl t have "y \<in> file_descendants listing f" by (simp add: file_descendants_def yd)
    with f(2,3) have "y \<in> contrib listing pid (f, fd)" by (simp add: contrib_def)
    with f(1) show ?thesis by blast
  qed
next
  fix y assume "y \<in> (\<Union>x \<in> set listing. contrib listing pid x)"
  then obtain x where x: "x \<in> set listing" "y \<in> contrib listing pid x" by blast
  obtain f fd where xd: "x = (f, fd)" by (cases x)
  from x(2) have p: "node_p fd = pid" by (auto simp: contrib_def xd split: if_splits)
  from x(2) consider "node_t fd = 0" "y = x" | "node_t fd = 1" "y \<in> file_descendants listing f"
    by (auto simp: contrib_def xd split: if_splits)
  then show "y \<in> file_descendants listing pid"
  proof cases
    case 1
    with x(1) p show ?thesis
      using descends.child [of f fd listing pid] by (simp add: file_descendants_def xd)
  next
    case 2
    then have "descends listing f (fst y)" "y \<in> set listing" "node_t (snd y) = 0"
      by (simp_all add: file_descendants_def)
    with descends_down [of f fd listing pid "fst y"] x(1) p 2(1) show ?thesis
      by (simp add: file_descendants_def xd)
  qed
qed

lemma file_name_readable:
  assumes "case file_name nd of Inl err \<Rightarrow> False | Inr n \<Rightarrow> True"
  shows "file_name nd = Inr (info_name (info_of (i, nd)))"
  using assms
  by (auto simp: file_name_def info_of_def split: option.splits attrs.splits if_splits)

lemma info_of_record:
  "\<lparr>info_id = i, info_name = info_name (info_of (i, nd)), info_data = nd\<rparr> = info_of (i, nd)"
  by (simp add: info_of_def)

lemma info_id_info_of: "info_id (info_of x) = fst x"
  by (cases x) (simp add: info_of_def)

lemma info_ids: "info_id ` info_of ` S = fst ` S"
  by (simp add: image_image info_id_info_of)

subsection \<open>What the walk collects\<close>

lemma traverse_loop_collects:
  assumes dk: "distinct (map fst listing)" and ac: "acyclic (subtree_rel listing root)"
    and rd: "readable_below listing root" and w: "walked listing root pid"
    and sub: "set rest \<subseteq> set listing" and dr: "distinct (map fst rest)"
    and ih: "\<And>f fd. (f, fd) \<in> set rest \<Longrightarrow> node_p fd = pid \<Longrightarrow> node_t fd = 1 \<Longrightarrow>
                collects listing f listing (file_descendants listing f)"
  shows "collects listing pid rest (\<Union>x \<in> set rest. contrib listing pid x)"
  using sub dr ih
proof (induction rest)
  case Nil
  show ?case by (simp add: collects_def)
next
  case (Cons x rest)
  obtain i nd where x: "x = (i, nd)" by (cases x)
  let ?S = "\<Union>y \<in> set rest. contrib listing pid y"
  let ?C = "contrib listing pid x"
  have xl: "x \<in> set listing" using Cons.prems(1) by simp
  have "collects listing pid rest ?S"
  proof (rule Cons.IH)
    show "set rest \<subseteq> set listing" using Cons.prems(1) by simp
    show "distinct (map fst rest)" using Cons.prems(2) by simp
    show "collects listing f listing (file_descendants listing f)"
      if "(f, fd) \<in> set rest" "node_p fd = pid" "node_t fd = 1" for f fd
      using Cons.prems(3) [of f fd] that by simp
  qed
  then obtain d0 where d0: "\<And>d' acc. d' \<ge> d0 \<Longrightarrow>
      \<exists>res. traverse d' listing pid rest acc = Some (Inr (acc @ res))
            \<and> set res = info_of ` ?S \<and> distinct (map info_id res)"
    unfolding collects_def by blast
  have dis: "fst ` ?C \<inter> fst ` ?S = {}"
  proof -
    have "fst ` ?C \<inter> fst ` contrib listing pid x' = {}" if "x' \<in> set rest" for x'
    proof -
      have "fst x \<notin> fst ` set rest" using Cons.prems(2) by simp
      then have "fst x \<noteq> fst x'" using that by auto
      moreover have "x' \<in> set listing" using Cons.prems(1) that by auto
      ultimately show ?thesis using contrib_disjoint [OF dk ac w xl, of x'] by blast
    qed
    then show ?thesis by blast
  qed
  have un: "(\<Union>y \<in> set (x # rest). contrib listing pid y) = ?C \<union> ?S" by simp
  consider (other) "node_p nd \<noteq> pid \<or> (node_t nd \<noteq> 0 \<and> node_t nd \<noteq> 1)"
    | (a_file) "node_p nd = pid" "node_t nd = 0"
    | (a_folder) "node_p nd = pid" "node_t nd = 1"
    by blast
  then show ?case
  proof cases
    case other
    then have C: "?C = {}" by (auto simp: contrib_def x)
    have "traverse d' listing pid (x # rest) acc = traverse d' listing pid rest acc" for d' acc
      unfolding x using traverse_skip [OF other] .
    then show ?thesis unfolding collects_def un C using d0 by (metis Un_empty_left)
  next
    case a_file
    have C: "?C = {x}" by (simp add: contrib_def x a_file)
    have "descends listing root i" using walked_child [OF w _ a_file(1)] xl x by simp
    then have "x \<in> file_descendants listing root"
      using xl a_file(2) by (simp add: file_descendants_def x)
    with rd have "case file_name nd of Inl err \<Rightarrow> False | Inr n \<Rightarrow> True"
      by (auto simp: readable_below_def x)
    from file_name_readable [OF this, of i]
    have fn: "file_name nd = Inr (info_name (info_of (i, nd)))" .
    have step: "traverse d' listing pid (x # rest) acc
                  = traverse d' listing pid rest (acc @ [info_of x])" for d' acc
      unfolding x traverse_file [OF a_file] fn by (simp add: info_of_record)
    have "\<exists>res. traverse d' listing pid (x # rest) acc = Some (Inr (acc @ res))
            \<and> set res = info_of ` (?C \<union> ?S) \<and> distinct (map info_id res)"
      if "d' \<ge> d0" for d' acc
    proof -
      from d0 [OF that, of "acc @ [info_of x]"] obtain res where
        res: "traverse d' listing pid rest (acc @ [info_of x]) = Some (Inr ((acc @ [info_of x]) @ res))"
             "set res = info_of ` ?S" "distinct (map info_id res)" by blast
      have "fst x \<notin> fst ` ?S" using dis unfolding C by simp
      then have "info_id (info_of x) \<notin> info_id ` set res"
        unfolding res(2) info_ids by (simp add: info_id_info_of)
      then have 1: "distinct (map info_id (info_of x # res))" using res(3) by simp
      have 2: "set (info_of x # res) = info_of ` (?C \<union> ?S)" using res(2) unfolding C by simp
      have 3: "traverse d' listing pid (x # rest) acc = Some (Inr (acc @ info_of x # res))"
        using step res(1) by simp
      from 1 2 3 show ?thesis by blast
    qed
    then show ?thesis unfolding collects_def un by blast
  next
    case a_folder
    have C: "?C = file_descendants listing i" by (simp add: contrib_def x a_folder)
    from Cons.prems(3) [of i nd] a_folder
    have "collects listing i listing (file_descendants listing i)" by (simp add: x)
    then obtain df where df: "\<And>d' acc. d' \<ge> df \<Longrightarrow>
        \<exists>res. traverse d' listing i listing acc = Some (Inr (acc @ res))
              \<and> set res = info_of ` file_descendants listing i \<and> distinct (map info_id res)"
      unfolding collects_def by blast
    have "\<exists>res. traverse d' listing pid (x # rest) acc = Some (Inr (acc @ res))
            \<and> set res = info_of ` (?C \<union> ?S) \<and> distinct (map info_id res)"
      if d': "d' \<ge> max (Suc df) d0" for d' acc
    proof -
      from d' obtain e where e: "d' = Suc e" "e \<ge> df" by (cases d') auto
      from df [OF e(2), of acc] obtain r1 where
        r1: "traverse e listing i listing acc = Some (Inr (acc @ r1))"
            "set r1 = info_of ` file_descendants listing i" "distinct (map info_id r1)" by blast
      have "d' \<ge> d0" using d' by simp
      from d0 [OF this, of "acc @ r1"] obtain r2 where
        r2: "traverse d' listing pid rest (acc @ r1) = Some (Inr ((acc @ r1) @ r2))"
            "set r2 = info_of ` ?S" "distinct (map info_id r2)" by blast
      have 3: "traverse d' listing pid (x # rest) acc = Some (Inr (acc @ r1 @ r2))"
        unfolding x e(1) traverse_folder [OF a_folder] r1(1) using r2(1) e(1) by simp
      have 2: "set (r1 @ r2) = info_of ` (?C \<union> ?S)" using r1(2) r2(2) C by (simp add: image_Un)
      have "info_id ` set r1 \<inter> info_id ` set r2 = {}"
        unfolding r1(2) r2(2) info_ids using dis C by simp
      then have 1: "distinct (map info_id (r1 @ r2))" using r1(3) r2(3) by simp
      from 1 2 3 show ?thesis by blast
    qed
    then show ?thesis unfolding collects_def un by blast
  qed
qed

lemma traverse_collects:
  assumes dk: "distinct (map fst listing)" and ac: "acyclic (subtree_rel listing root)"
    and rd: "readable_below listing root" and w: "walked listing root pid"
  shows "collects listing pid listing (file_descendants listing pid)"
proof -
  have "wf (subtree_rel listing root)" by (rule finite_acyclic_wf [OF finite_subtree_rel ac])
  then show ?thesis using w
  proof (induction pid rule: wf_induct_rule)
    case (less pid)
    have "collects listing pid listing (\<Union>x \<in> set listing. contrib listing pid x)"
    proof (rule traverse_loop_collects [OF dk ac rd less.prems])
      show "set listing \<subseteq> set listing" by simp
      show "distinct (map fst listing)" by (rule dk)
      fix f fd assume f: "(f, fd) \<in> set listing" "node_p fd = pid" "node_t fd = 1"
      have "(f, pid) \<in> subtree_rel listing root" by (rule walked_child_edge [OF less.prems f(1,2)])
      moreover have "walked listing root f" by (rule walked_folder [OF less.prems f])
      ultimately show "collects listing f listing (file_descendants listing f)" by (rule less.IH)
    qed
    then show ?case by (simp add: descendants_split [OF dk])
  qed
qed

lemma descends_set_eq:
  "set listing' = set listing \<Longrightarrow> descends listing' r i = descends listing r i"
  using descends_set_cong [of listing' listing r i] descends_set_cong [of listing listing' r i]
  by auto

lemma file_descendants_set_eq:
  assumes "set listing' = set listing"
  shows "file_descendants listing' r = file_descendants listing r"
  unfolding file_descendants_def assms descends_set_eq [OF assms] ..

lemma subtree_rel_set_eq:
  assumes "set listing' = set listing"
  shows "subtree_rel listing' r = subtree_rel listing r"
  unfolding subtree_rel_def assms descends_set_eq [OF assms] ..

lemma readable_below_set_eq:
  assumes "set listing' = set listing"
  shows "readable_below listing' r = readable_below listing r"
  unfolding readable_below_def file_descendants_set_eq [OF assms] ..

lemma readable_files_below: "readable_files listing \<Longrightarrow> readable_below listing root"
  by (auto simp: readable_files_def readable_below_def file_descendants_def)

lemma inj_info_of: "inj info_of"
proof (rule injI)
  fix x y :: "string \<times> node" assume "info_of x = info_of y"
  then have "info_id (info_of x) = info_id (info_of y)" "info_data (info_of x) = info_data (info_of y)"
    by simp_all
  then show "x = y" by (cases x; cases y) (simp add: info_of_def)
qed

lemma walk_result:
  assumes dk: "distinct (map fst listing)" and ac: "acyclic (subtree_rel listing root)"
    and rd: "readable_below listing root"
  shows "\<exists>d. \<forall>d' \<ge> d. \<exists>res.
            get_all_files_recursive d' listing root = Some (Inr res)
          \<and> set res = info_of ` file_descendants listing root
          \<and> distinct (map info_id res)"
proof -
  have "walked listing root root" by (simp add: walked_def)
  from traverse_collects [OF dk ac rd this] obtain d where
    d: "\<forall>d' \<ge> d. \<forall>acc. \<exists>res. traverse d' listing root listing acc = Some (Inr (acc @ res))
          \<and> set res = info_of ` file_descendants listing root \<and> distinct (map info_id res)"
    unfolding collects_def by blast
  have "\<exists>res. get_all_files_recursive d' listing root = Some (Inr res)
          \<and> set res = info_of ` file_descendants listing root \<and> distinct (map info_id res)"
    if "d' \<ge> d" for d'
    using d [rule_format, OF that, of "[]"] by (simp add: get_all_files_recursive_def)
  then show ?thesis by blast
qed

lemma length_of_result:
  assumes "set res = info_of ` S" "distinct (map info_id res)"
  shows "length res = card S"
proof -
  from assms(2) have "distinct res" by (simp add: distinct_map)
  then have "length res = card (set res)" by (simp add: distinct_card)
  also have "\<dots> = card S"
    unfolding assms(1) by (rule card_image) (meson inj_info_of inj_on_subset subset_UNIV)
  finally show ?thesis .
qed

subsection \<open>C2: what the walk returns\<close>

text \<open>
  C2, as the code has it. Take a listing with unique ids in which no parent cycle runs
  through the nodes below the root and in which the name of every file below the root
  can be read. Then, for every sufficiently large number of nested calls, the walk from
  the root returns exactly the file nodes whose parent chain reaches the root through
  folders only, no folder and no other node, each of them once. Any other iteration
  order of the same listing gives the same set of files and the same number of them.
  When only folders have children, these files are the file nodes whose parent chain
  reaches the root.
\<close>

theorem collect_files_exact:
  assumes "distinct (map fst listing)" and "acyclic (subtree_rel listing root)"
    and "readable_below listing root"
    and "set listing' = set listing" and "distinct (map fst listing')"
  shows "(\<exists>d. \<forall>d' \<ge> d. \<exists>res res'.
            get_all_files_recursive d' listing root = Some (Inr res)
          \<and> get_all_files_recursive d' listing' root = Some (Inr res')
          \<and> set res = info_of ` file_descendants listing root
          \<and> (\<forall>x \<in> set res. node_t (info_data x) = 0)
          \<and> distinct (map info_id res)
          \<and> length res = card (file_descendants listing root)
          \<and> set res' = set res
          \<and> length res' = length res)
       \<and> (only_folders_have_children listing \<longrightarrow>
            file_descendants listing root
              = {x \<in> set listing. node_t (snd x) = 0 \<and> reaches listing root (fst x)})"
proof -
  from walk_result [OF assms(1-3)] obtain d1 where
    d1: "\<And>d'. d' \<ge> d1 \<Longrightarrow> \<exists>res. get_all_files_recursive d' listing root = Some (Inr res)
          \<and> set res = info_of ` file_descendants listing root \<and> distinct (map info_id res)"
    by blast
  have ac': "acyclic (subtree_rel listing' root)"
    using assms(2) unfolding subtree_rel_set_eq [OF assms(4)] .
  have rd': "readable_below listing' root"
    using assms(3) unfolding readable_below_set_eq [OF assms(4)] .
  from walk_result [OF assms(5) ac' rd'] obtain d2 where
    d2: "\<And>d'. d' \<ge> d2 \<Longrightarrow> \<exists>res. get_all_files_recursive d' listing' root = Some (Inr res)
          \<and> set res = info_of ` file_descendants listing root \<and> distinct (map info_id res)"
    unfolding file_descendants_set_eq [OF assms(4)] by blast
  have "\<exists>res res'.
            get_all_files_recursive d' listing root = Some (Inr res)
          \<and> get_all_files_recursive d' listing' root = Some (Inr res')
          \<and> set res = info_of ` file_descendants listing root
          \<and> (\<forall>x \<in> set res. node_t (info_data x) = 0)
          \<and> distinct (map info_id res)
          \<and> length res = card (file_descendants listing root)
          \<and> set res' = set res
          \<and> length res' = length res"
    if d': "d' \<ge> max d1 d2" for d'
  proof -
    from d1 [of d'] d' obtain res where
      res: "get_all_files_recursive d' listing root = Some (Inr res)"
           "set res = info_of ` file_descendants listing root" "distinct (map info_id res)"
      by auto
    from d2 [of d'] d' obtain res' where
      res': "get_all_files_recursive d' listing' root = Some (Inr res')"
            "set res' = info_of ` file_descendants listing root" "distinct (map info_id res')"
      by auto
    have t: "\<forall>x \<in> set res. node_t (info_data x) = 0"
      unfolding res(2) by (auto simp: file_descendants_def info_of_def)
    note l = length_of_result [OF res(2,3)] length_of_result [OF res'(2,3)]
    show ?thesis
      apply (rule exI [of _ res], rule exI [of _ res'])
      apply (intro conjI)
             apply (rule res(1))
            apply (rule res'(1))
           apply (rule res(2))
          apply (rule t)
         apply (rule res(3))
        apply (rule l(1))
       apply (simp only: res(2) res'(2))
      apply (simp only: l)
      done
  qed
  note step = this
  have 1: "\<exists>d. \<forall>d' \<ge> d. \<exists>res res'.
            get_all_files_recursive d' listing root = Some (Inr res)
          \<and> get_all_files_recursive d' listing' root = Some (Inr res')
          \<and> set res = info_of ` file_descendants listing root
          \<and> (\<forall>x \<in> set res. node_t (info_data x) = 0)
          \<and> distinct (map info_id res)
          \<and> length res = card (file_descendants listing root)
          \<and> set res' = set res
          \<and> length res' = length res"
    by (rule exI [of _ "max d1 d2"], intro allI impI, rule step)
  have 2: "only_folders_have_children listing \<longrightarrow>
            file_descendants listing root
              = {x \<in> set listing. node_t (snd x) = 0 \<and> reaches listing root (fst x)}"
  proof
    assume o: "only_folders_have_children listing"
    have "descends listing root i \<longleftrightarrow> reaches listing root i" for i
      using descends_reaches [of listing root i] reaches_descends [OF o, of root i] by blast
    then show "file_descendants listing root
              = {x \<in> set listing. node_t (snd x) = 0 \<and> reaches listing root (fst x)}"
      by (simp add: file_descendants_def)
  qed
  show ?thesis by (rule conjI [OF 1 2])
qed

theorem collect_files_exact_witness:
  "\<exists>d res res'.
      get_all_files_recursive d
        [(''S'', folder_node ''F'' ''sub''), (''a'', file_node ''S'' ''a.txt''),
         (''b'', file_node ''F'' ''b.txt'')] ''F'' = Some (Inr res)
    \<and> get_all_files_recursive d
        [(''b'', file_node ''F'' ''b.txt''), (''a'', file_node ''S'' ''a.txt''),
         (''S'', folder_node ''F'' ''sub'')] ''F'' = Some (Inr res')
    \<and> set res' = set res \<and> length res' = length res \<and> distinct (map info_id res)"
proof -
  let ?L = "[(''S'', folder_node ''F'' ''sub''), (''a'', file_node ''S'' ''a.txt''),
             (''b'', file_node ''F'' ''b.txt'')]"
  let ?L' = "[(''b'', file_node ''F'' ''b.txt''), (''a'', file_node ''S'' ''a.txt''),
              (''S'', folder_node ''F'' ''sub'')]"
  let ?f = "\<lambda>s. if s = ''a'' then 2 else if s = ''S'' then 1 else if s = ''b'' then 1 else (0::nat)"
  have "?f b < ?f a" if "(a, b) \<in> parent_rel ?L" for a b
    using that by (auto simp: parent_rel_def folder_node_def file_node_def)
  then have "acyclic (parent_rel ?L)" by (rule acyclicI_order)
  then have ac: "acyclic (subtree_rel ?L ''F'')" by (rule acyclic_subtree_rel)
  have "readable_files ?L"
    by (simp add: readable_files_def file_name_def folder_node_def file_node_def)
  then have rd: "readable_below ?L ''F''" by (rule readable_files_below)
  have dk: "distinct (map fst ?L)" "distinct (map fst ?L')" by simp_all
  have se: "set ?L' = set ?L" by auto
  from collect_files_exact [OF dk(1) ac rd se dk(2)] obtain d where
    d: "\<forall>d' \<ge> d. \<exists>res res'.
            get_all_files_recursive d' ?L ''F'' = Some (Inr res)
          \<and> get_all_files_recursive d' ?L' ''F'' = Some (Inr res')
          \<and> set res = info_of ` file_descendants ?L ''F''
          \<and> (\<forall>x \<in> set res. node_t (info_data x) = 0)
          \<and> distinct (map info_id res)
          \<and> length res = card (file_descendants ?L ''F'')
          \<and> set res' = set res
          \<and> length res' = length res"
    by (elim conjE exE)
  from d [rule_format, of d] obtain res res' where
    "get_all_files_recursive d ?L ''F'' = Some (Inr res)"
    "get_all_files_recursive d ?L' ''F'' = Some (Inr res')"
    "set res' = set res" "length res' = length res" "distinct (map info_id res)"
    by auto
  then show ?thesis by (intro exI conjI)
qed

text \<open>
  On this listing the two orders give the two files in different orders: the first
  meets the subfolder before the file \<open>b\<close>, the second after it.
\<close>

lemma walk_two_orders:
  "get_all_files_recursive 1
      [(''S'', folder_node ''F'' ''sub''), (''a'', file_node ''S'' ''a.txt''),
       (''b'', file_node ''F'' ''b.txt'')] ''F''
     = Some (Inr [info_of (''a'', file_node ''S'' ''a.txt''), info_of (''b'', file_node ''F'' ''b.txt'')])
   \<and> get_all_files_recursive 1
      [(''b'', file_node ''F'' ''b.txt''), (''a'', file_node ''S'' ''a.txt''),
       (''S'', folder_node ''F'' ''sub'')] ''F''
     = Some (Inr [info_of (''b'', file_node ''F'' ''b.txt''), info_of (''a'', file_node ''S'' ''a.txt'')])"
  by (simp add: get_all_files_recursive_def folder_node_def file_node_def file_name_def info_of_def)

text \<open>
  The claim as worded, for every listing, fails in two ways. On two folders that are each
  other's parent the walk from one of them never returns, whatever number of nested calls
  is available. And a file whose parent is a file has a parent chain that reaches the
  root, but line 211 descends into folders only, so it is not returned.
\<close>

theorem collect_files_counterexample:
  "(\<forall>d. get_all_files_recursive d
          [(''A'', folder_node ''B'' ''a''), (''B'', folder_node ''A'' ''b'')] ''A'' = None)
   \<and> node_t (file_node ''f'' ''g.txt'') = 0
   \<and> reaches [(''F'', folder_node ''top'' ''F''), (''f'', file_node ''F'' ''f.txt''),
              (''g'', file_node ''f'' ''g.txt'')] ''F'' ''g''
   \<and> (\<forall>d. get_all_files_recursive d
          [(''F'', folder_node ''top'' ''F''), (''f'', file_node ''F'' ''f.txt''),
           (''g'', file_node ''f'' ''g.txt'')] ''F''
        = Some (Inr [\<lparr>info_id = ''f'', info_name = ''f.txt'', info_data = file_node ''F'' ''f.txt''\<rparr>]))"
proof -
  let ?L = "[(''F'', folder_node ''top'' ''F''), (''f'', file_node ''F'' ''f.txt''),
             (''g'', file_node ''f'' ''g.txt'')]"
  have 1: "\<forall>d. get_all_files_recursive d
          [(''A'', folder_node ''B'' ''a''), (''B'', folder_node ''A'' ''b'')] ''A'' = None"
    using two_cycle_never_returns by (simp add: get_all_files_recursive_def)
  have 2: "node_t (file_node ''f'' ''g.txt'') = 0" by (simp add: file_node_def)
  have "reaches ?L ''F'' ''f''"
    by (rule reaches.child [of "''f''" "file_node ''F'' ''f.txt''"]) (simp_all add: file_node_def)
  then have 3: "reaches ?L ''F'' ''g''"
    by (intro reaches.chain [of "''g''" "file_node ''f'' ''g.txt''"]) (simp_all add: file_node_def)
  have 4: "\<forall>d. get_all_files_recursive d ?L ''F''
        = Some (Inr [\<lparr>info_id = ''f'', info_name = ''f.txt'', info_data = file_node ''F'' ''f.txt''\<rparr>])"
    by (simp add: get_all_files_recursive_def folder_node_def file_node_def file_name_def)
  from 1 2 3 4 show ?thesis by (intro conjI)
qed

text \<open>
  Left out of the statement above: a file below the root whose attributes are \<open>False\<close>
  makes line 208 raise, and the walk ends with that exception.
\<close>

lemma unreadable_name_raises:
  "get_all_files_recursive d
     [(''u'', \<lparr>node_p = ''F'', node_t = 0, node_a = Some NoAttrs\<rparr>)] ''F'' = Some (Inl TypeError)"
  by (simp add: get_all_files_recursive_def file_name_def)

end
